theory Spec2Isabelle
  imports Main
begin

section \<open>Values held by a collection\<close>

text \<open>
  A document is a JavaScript object whose values are JSON-representable.  An object is
  kept as the list of its own properties in property order, a string as the list of its
  code units.  Numbers are opaque payload for the repository (it only ever tests one for
  truthiness); they are modelled by integers.
\<close>

datatype json =
    JNull
  | JBool bool
  | JNum int
  | JStr string
  | JArr "json list"
  | JObj "(string \<times> json) list"

type_synonym doc = "(string \<times> json) list"

text \<open>The two exceptions the code can raise: \<open>JSON.parse\<close> on malformed text, and the
  runtime on a property read of \<open>null\<close>, a call of a missing method or a spread of a value
  that is not iterable.\<close>

datatype error = SyntaxError | TypeError

text \<open>JavaScript truthiness of an optional value (\<open>None\<close> is \<open>undefined\<close>).\<close>

fun truthy :: "json option \<Rightarrow> bool" where
  "truthy None = False"
| "truthy (Some JNull) = False"
| "truthy (Some (JBool b)) = b"
| "truthy (Some (JNum n)) = (n \<noteq> 0)"
| "truthy (Some (JStr s)) = (s \<noteq> [])"
| "truthy (Some (JArr xs)) = True"
| "truthy (Some (JObj kvs)) = True"

subsection \<open>Property keys and property order\<close>

definition is_digit :: "char \<Rightarrow> bool" where
  "is_digit c = (48 \<le> (of_char c :: nat) \<and> (of_char c :: nat) \<le> 57)"

definition digits_value :: "string \<Rightarrow> nat" where
  "digits_value k = foldl (\<lambda>n c. 10 * n + ((of_char c :: nat) - 48)) 0 k"

text \<open>An array index is the canonical decimal form of an integer below \<open>2^32 - 1\<close>.\<close>

definition array_index :: "string \<Rightarrow> nat option" where
  "array_index k =
     (if k \<noteq> [] \<and> list_all is_digit k \<and> (length k = 1 \<or> hd k \<noteq> CHR ''0'')
         \<and> digits_value k < 4294967295
      then Some (digits_value k) else None)"

text \<open>Where a new property goes: array indices come first, in ascending order, then the
  other keys in order of creation.\<close>

fun obj_insert :: "string \<Rightarrow> json \<Rightarrow> doc \<Rightarrow> doc" where
  "obj_insert k v [] = [(k, v)]"
| "obj_insert k v ((k', v') # rest) =
     (case array_index k of
        None \<Rightarrow> (k', v') # obj_insert k v rest
      | Some n \<Rightarrow>
          (case array_index k' of
             None \<Rightarrow> (k, v) # (k', v') # rest
           | Some n' \<Rightarrow>
               if n < n' then (k, v) # (k', v') # rest
               else (k', v') # obj_insert k v rest))"

fun obj_replace :: "string \<Rightarrow> json \<Rightarrow> doc \<Rightarrow> doc" where
  "obj_replace k v [] = []"
| "obj_replace k v ((k', v') # rest) =
     (if k' = k then (k, v) # rest else (k', v') # obj_replace k v rest)"

text \<open>\<open>o[k] = v\<close> on an ordinary object: an existing property keeps its place.\<close>

definition obj_set :: "string \<Rightarrow> json \<Rightarrow> doc \<Rightarrow> doc" where
  "obj_set k v d =
     (if k \<in> set (map fst d) then obj_replace k v d else obj_insert k v d)"

text \<open>\<open>{ ...a, ...b }\<close> for an object \<open>a\<close>: a copy of \<open>a\<close>, then every property of \<open>b\<close> set
  on it in \<open>b\<close>'s order.\<close>

definition spread :: "doc \<Rightarrow> doc \<Rightarrow> doc" where
  "spread a b = fold (\<lambda>(k, v). obj_set k v) b a"

text \<open>\<open>item[key]\<close>.  Reading a property of \<open>null\<close> throws.  A value found on a prototype
  (a method, a constructor) is never a JSON value; the code only compares the result with
  a string or tests an \<open>_id\<close> for truthiness, so such a value is read as \<open>undefined\<close>.\<close>

fun get_prop :: "json \<Rightarrow> string \<Rightarrow> error + json option" where
  "get_prop JNull k = Inl TypeError"
| "get_prop (JObj kvs) k = Inr (map_of kvs k)"
| "get_prop (JArr xs) k =
     Inr (case array_index k of
            Some i \<Rightarrow> if i < length xs then Some (xs ! i) else None
          | None \<Rightarrow> if k = ''length'' then Some (JNum (int (length xs))) else None)"
| "get_prop (JStr s) k =
     Inr (case array_index k of
            Some i \<Rightarrow> if i < length s then Some (JStr [s ! i]) else None
          | None \<Rightarrow> if k = ''length'' then Some (JNum (int (length s))) else None)"
| "get_prop (JBool b) k = Inr None"
| "get_prop (JNum n) k = Inr None"

text \<open>The own properties a spread copies out of a value.  Only an object can carry an
  \<open>_id\<close>, so \<open>update\<close> only ever spreads objects.\<close>

fun own_props :: "json \<Rightarrow> doc" where
  "own_props (JObj kvs) = kvs"
| "own_props v = []"

text \<open>\<open>[...items]\<close>: an array yields its elements, a string its characters, anything else
  is not iterable.\<close>

fun iterate :: "json \<Rightarrow> error + json list" where
  "iterate (JArr xs) = Inr xs"
| "iterate (JStr s) = Inr (map (\<lambda>c. JStr [c]) s)"
| "iterate v = Inl TypeError"

subsection \<open>Array methods with a callback that may throw\<close>

fun filterE :: "('a \<Rightarrow> error + bool) \<Rightarrow> 'a list \<Rightarrow> error + 'a list" where
  "filterE p [] = Inr []"
| "filterE p (x # xs) =
     (case p x of
        Inl e \<Rightarrow> Inl e
      | Inr b \<Rightarrow>
          (case filterE p xs of
             Inl e \<Rightarrow> Inl e
           | Inr ys \<Rightarrow> Inr (if b then x # ys else ys)))"

text \<open>\<open>findIndex\<close>; the result \<open>-1\<close> is \<open>None\<close>.\<close>

fun findIndex :: "('a \<Rightarrow> error + bool) \<Rightarrow> 'a list \<Rightarrow> error + nat option" where
  "findIndex p [] = Inr None"
| "findIndex p (x # xs) =
     (case p x of
        Inl e \<Rightarrow> Inl e
      | Inr True \<Rightarrow> Inr (Some 0)
      | Inr False \<Rightarrow>
          (case findIndex p xs of
             Inl e \<Rightarrow> Inl e
           | Inr None \<Rightarrow> Inr None
           | Inr (Some i) \<Rightarrow> Inr (Some (Suc i))))"

text \<open>\<open>Object.entries(query).every(([key, value]) => item[key] === value)\<close>: stops at the
  first entry that fails.\<close>

fun every :: "json \<Rightarrow> (string \<times> string) list \<Rightarrow> error + bool" where
  "every item [] = Inr True"
| "every item ((key, val) # rest) =
     (case get_prop item key of
        Inl e \<Rightarrow> Inl e
      | Inr x \<Rightarrow> if x = Some (JStr val) then every item rest else Inr False)"

text \<open>\<open>item._id === _id\<close> and \<open>_ids.includes(item._id)\<close>.\<close>

definition id_is :: "string \<Rightarrow> json \<Rightarrow> error + bool" where
  "id_is ident item =
     (case get_prop item ''_id'' of Inl e \<Rightarrow> Inl e | Inr x \<Rightarrow> Inr (x = Some (JStr ident)))"

definition id_isnt :: "string \<Rightarrow> json \<Rightarrow> error + bool" where
  "id_isnt ident item =
     (case get_prop item ''_id'' of Inl e \<Rightarrow> Inl e | Inr x \<Rightarrow> Inr (x \<noteq> Some (JStr ident)))"

definition id_not_among :: "string list \<Rightarrow> json \<Rightarrow> error + bool" where
  "id_not_among idents item =
     (case get_prop item ''_id'' of
        Inl e \<Rightarrow> Inl e
      | Inr x \<Rightarrow> Inr (\<not> list_ex (\<lambda>i. x = Some (JStr i)) idents))"

section \<open>The host: JSON codec, identifier source, storage\<close>

text \<open>
  \<open>JSON.parse\<close>, \<open>JSON.stringify\<close> and \<open>uuidv4\<close> belong to the host, not to the
  repository; the operations take them as parameters.  \<open>JSON_parse\<close> returns \<open>None\<close>
  where the host throws a syntax error.  \<open>uuidv4 n\<close> is the identifier the \<open>n\<close>-th call
  of the generator returns.
\<close>

record host =
  JSON_parse :: "string \<Rightarrow> json option"
  JSON_stringify :: "json \<Rightarrow> string"
  uuidv4 :: "nat \<Rightarrow> string"

text \<open>
  The world an operation runs in: the storage area, the log of the \<open>setItem\<close> calls made
  so far (a write that stores the text already there is still a write), the number of
  identifiers drawn, the console, and the caller's document objects by address.
  \<open>create\<close> is given references to such objects and assigns an \<open>_id\<close> into them, so
  an object given twice is one object.
\<close>

record world =
  localStorage :: "string \<rightharpoonup> string"
  setItem_calls :: "(string \<times> string) list"
  uuid_calls :: nat
  console :: "(string \<times> json option) list"
  objects :: "nat \<Rightarrow> doc"

definition getItem :: "world \<Rightarrow> string \<Rightarrow> string option" where
  "getItem w key = localStorage w key"

definition setItem :: "string \<Rightarrow> string \<Rightarrow> world \<Rightarrow> world" where
  "setItem key val w =
     w\<lparr>localStorage := (localStorage w)(key \<mapsto> val),
       setItem_calls := setItem_calls w @ [(key, val)]\<rparr>"

definition console_warn :: "string \<Rightarrow> json option \<Rightarrow> world \<Rightarrow> world" where
  "console_warn msg arg w = w\<lparr>console := console w @ [(msg, arg)]\<rparr>"

section \<open>Repository\<close>

record repository =
  collection :: string
  verbose :: bool

text \<open>\<open>localStorage.getItem(this.collection) || '[]'\<close>: an absent key and the empty text
  both give \<open>'[]'\<close>.\<close>

definition stored_text :: "repository \<Rightarrow> world \<Rightarrow> string" where
  "stored_text this w =
     (case getItem w (collection this) of
        None \<Rightarrow> ''[]''
      | Some s \<Rightarrow> if s = [] then ''[]'' else s)"

definition read ::
  "host \<Rightarrow> repository \<Rightarrow> (string \<times> string) list option \<Rightarrow> world \<Rightarrow> (error + json) \<times> world"
where
  "read h this query w =
     (case JSON_parse h (stored_text this w) of
        None \<Rightarrow> (Inl SyntaxError, w)
      | Some items \<Rightarrow>
          (case query of
             None \<Rightarrow> (Inr items, w)
           | Some q \<Rightarrow>
               (case items of
                  JArr xs \<Rightarrow>
                    (case filterE (\<lambda>item. every item q) xs of
                       Inl e \<Rightarrow> (Inl e, w)
                     | Inr ys \<Rightarrow> (Inr (JArr ys), w))
                | _ \<Rightarrow> (Inl TypeError, w))))"

text \<open>\<open>NewDoc<T> | NewDoc<T>[]\<close>, each document a reference to an object of the caller.\<close>

datatype new_docs = One nat | Many "nat list"

text \<open>The \<open>forEach\<close> of \<open>create\<close>: an object whose \<open>_id\<close> is falsy is assigned the next
  identifier.\<close>

fun assign_ids :: "host \<Rightarrow> nat list \<Rightarrow> world \<Rightarrow> world" where
  "assign_ids h [] w = w"
| "assign_ids h (item # rest) w =
     (if \<not> truthy (map_of (objects w item) ''_id'')
      then assign_ids h rest
             (w\<lparr>objects := (objects w)
                    (item := obj_set ''_id'' (JStr (uuidv4 h (uuid_calls w))) (objects w item)),
                uuid_calls := Suc (uuid_calls w)\<rparr>)
      else assign_ids h rest w)"

text \<open>The result is the array of the given objects, read after the assignments.\<close>

definition create ::
  "host \<Rightarrow> repository \<Rightarrow> new_docs \<Rightarrow> world \<Rightarrow> (error + doc list) \<times> world"
where
  "create h this newDocs w =
     (case read h this None w of
        (Inl e, w1) \<Rightarrow> (Inl e, w1)
      | (Inr items, w1) \<Rightarrow>
          (let newItems = (case newDocs of Many rs \<Rightarrow> rs | One r \<Rightarrow> [r]);
               w2 = assign_ids h newItems w1
           in case iterate items of
                Inl e \<Rightarrow> (Inl e, w2)
              | Inr xs \<Rightarrow>
                  (Inr (map (objects w2) newItems),
                   setItem (collection this)
                     (JSON_stringify h (JArr (xs @ map (\<lambda>r. JObj (objects w2 r)) newItems))) w2)))"

definition update ::
  "host \<Rightarrow> repository \<Rightarrow> string \<Rightarrow> doc \<Rightarrow> world \<Rightarrow> (error + nat) \<times> world"
where
  "update h this ident upd w =
     (if ident = [] then (Inr 0, w)
      else
        (case read h this None w of
           (Inl e, w1) \<Rightarrow> (Inl e, w1)
         | (Inr (JArr xs), w1) \<Rightarrow>
             (case findIndex (id_is ident) xs of
                Inl e \<Rightarrow> (Inl e, w1)
              | Inr None \<Rightarrow> (Inr 0, w1)
              | Inr (Some index) \<Rightarrow>
                  (let updateId = map_of upd ''_id'';
                       updateWithoutId = filter (\<lambda>(k, v). k \<noteq> ''_id'') upd;
                       w2 = (if verbose this
                             then console_warn
                                    (''Trying to update item _id: '' @ ident @ '' with'')
                                    updateId w1
                             else w1);
                       xs' = xs[index := JObj (spread (own_props (xs ! index)) updateWithoutId)]
                   in (Inr 1,
                       setItem (collection this) (JSON_stringify h (JArr xs')) w2)))
         | (Inr _, w1) \<Rightarrow> (Inl TypeError, w1)))"

text \<open>\<open>UpdateManyDoc<T>\<close>: the \<open>_id\<close> and the rest, as the callback's parameter
  \<open>{ _id, ...doc }\<close> takes an entry apart.\<close>

type_synonym update_many_doc = "string \<times> doc"

fun forEach_update ::
  "host \<Rightarrow> repository \<Rightarrow> update_many_doc list \<Rightarrow> nat \<Rightarrow> world \<Rightarrow> (error + nat) \<times> world"
where
  "forEach_update h this [] count w = (Inr count, w)"
| "forEach_update h this ((ident, d) # rest) count w =
     (case update h this ident d w of
        (Inl e, w1) \<Rightarrow> (Inl e, w1)
      | (Inr n, w1) \<Rightarrow> forEach_update h this rest (count + n) w1)"

definition updateMany ::
  "host \<Rightarrow> repository \<Rightarrow> update_many_doc list \<Rightarrow> world \<Rightarrow> (error + nat) \<times> world"
where
  "updateMany h this docs w =
     (if length docs = 0 then (Inr 0, w) else forEach_update h this docs 0 w)"

definition delete ::
  "host \<Rightarrow> repository \<Rightarrow> string \<Rightarrow> world \<Rightarrow> (error + nat) \<times> world"
where
  "delete h this ident w =
     (if ident = [] then (Inr 0, w)
      else
        (case read h this None w of
           (Inl e, w1) \<Rightarrow> (Inl e, w1)
         | (Inr (JArr xs), w1) \<Rightarrow>
             (case filterE (id_isnt ident) xs of
                Inl e \<Rightarrow> (Inl e, w1)
              | Inr filteredItems \<Rightarrow>
                  if length xs = length filteredItems then (Inr 0, w1)
                  else (Inr 1,
                        setItem (collection this)
                          (JSON_stringify h (JArr filteredItems)) w1))
         | (Inr _, w1) \<Rightarrow> (Inl TypeError, w1)))"

definition deleteMany ::
  "host \<Rightarrow> repository \<Rightarrow> string list \<Rightarrow> world \<Rightarrow> (error + nat) \<times> world"
where
  "deleteMany h this idents w =
     (if length idents = 0 then (Inr 0, w)
      else
        (case read h this None w of
           (Inl e, w1) \<Rightarrow> (Inl e, w1)
         | (Inr (JArr xs), w1) \<Rightarrow>
             (case filterE (id_not_among idents) xs of
                Inl e \<Rightarrow> (Inl e, w1)
              | Inr filteredItems \<Rightarrow>
                  (let count = length xs - length filteredItems
                   in if count = 0 then (Inr 0, w1)
                      else (Inr count,
                            setItem (collection this)
                              (JSON_stringify h (JArr filteredItems)) w1)))
         | (Inr _, w1) \<Rightarrow> (Inl TypeError, w1)))"

section \<open>A host to run the operations on\<close>

text \<open>
  A concrete host, for evaluating the operations on concrete worlds: a JSON printer in
  the compact form \<open>JSON.stringify\<close> produces, a JSON reader for texts whose numbers are
  integer literals and whose escapes stay below code unit 256, and an identifier source
  in the layout of a version-4 identifier.  Every theorem below about an arbitrary host
  also holds for this one.
\<close>

definition digit_char :: "nat \<Rightarrow> char" where
  "digit_char n = char_of (48 + n)"

fun show_nat :: "nat \<Rightarrow> string" where
  "show_nat n = (if n < 10 then [digit_char n] else show_nat (n div 10) @ [digit_char (n mod 10)])"

declare show_nat.simps [simp del]

definition show_int :: "int \<Rightarrow> string" where
  "show_int i = (if i < 0 then CHR ''-'' # show_nat (nat (- i)) else show_nat (nat i))"

definition hex_char :: "nat \<Rightarrow> char" where
  "hex_char n = (if n < 10 then char_of (48 + n) else char_of (87 + n))"

definition quote_char :: "char \<Rightarrow> string" where
  "quote_char c =
     (if c = CHR 0x22 then [CHR 0x5C, CHR 0x22]
      else if c = CHR 0x5C then [CHR 0x5C, CHR 0x5C]
      else if c = CHR 0x08 then [CHR 0x5C, CHR ''b'']
      else if c = CHR 0x0C then [CHR 0x5C, CHR ''f'']
      else if c = CHR 0x0A then [CHR 0x5C, CHR ''n'']
      else if c = CHR 0x0D then [CHR 0x5C, CHR ''r'']
      else if c = CHR 0x09 then [CHR 0x5C, CHR ''t'']
      else if (of_char c :: nat) < 32
        then [CHR 0x5C, CHR ''u'', CHR ''0'', CHR ''0'',
              hex_char (of_char c div 16), hex_char (of_char c mod 16)]
      else [c])"

definition quote :: "string \<Rightarrow> string" where
  "quote s = CHR 0x22 # concat (map quote_char s) @ [CHR 0x22]"

fun commas :: "string list \<Rightarrow> string" where
  "commas [] = []"
| "commas [x] = x"
| "commas (x # y # ys) = x @ CHR '','' # commas (y # ys)"

fun stringify :: "json \<Rightarrow> string" where
  "stringify JNull = ''null''"
| "stringify (JBool b) = (if b then ''true'' else ''false'')"
| "stringify (JNum n) = show_int n"
| "stringify (JStr s) = quote s"
| "stringify (JArr xs) = CHR ''['' # commas (map stringify xs) @ '']''"
| "stringify (JObj kvs) =
     CHR ''{'' # commas (map (\<lambda>(k, v). quote k @ CHR '':'' # stringify v) kvs) @ ''}''"

definition is_ws :: "char \<Rightarrow> bool" where
  "is_ws c = ((of_char c :: nat) \<in> {32, 9, 10, 13})"

definition skip_ws :: "string \<Rightarrow> string" where
  "skip_ws s = dropWhile is_ws s"

definition hex_value :: "char \<Rightarrow> nat option" where
  "hex_value c =
     (let n = (of_char c :: nat) in
      if 48 \<le> n \<and> n \<le> 57 then Some (n - 48)
      else if 97 \<le> n \<and> n \<le> 102 then Some (n - 87)
      else if 65 \<le> n \<and> n \<le> 70 then Some (n - 55)
      else None)"

definition unescape :: "char \<Rightarrow> char option" where
  "unescape c =
     (if c = CHR 0x22 then Some (CHR 0x22)
      else if c = CHR 0x5C then Some (CHR 0x5C)
      else if c = CHR ''/'' then Some (CHR ''/'')
      else if c = CHR ''b'' then Some (CHR 0x08)
      else if c = CHR ''f'' then Some (CHR 0x0C)
      else if c = CHR ''n'' then Some (CHR 0x0A)
      else if c = CHR ''r'' then Some (CHR 0x0D)
      else if c = CHR ''t'' then Some (CHR 0x09)
      else None)"

text \<open>The characters of a string literal after its opening quote, and the rest.\<close>

fun parse_chars :: "string \<Rightarrow> (string \<times> string) option" where
  "parse_chars [] = None"
| "parse_chars (c # cs) =
     (if c = CHR 0x22 then Some ([], cs)
      else if c = CHR 0x5C then
        (case cs of
           [] \<Rightarrow> None
         | e # cs1 \<Rightarrow>
             if e = CHR ''u'' then
               (case cs1 of
                  h1 # h2 # h3 # h4 # cs2 \<Rightarrow>
                    (case (hex_value h1, hex_value h2, hex_value h3, hex_value h4) of
                       (Some a, Some b, Some x, Some y) \<Rightarrow>
                         if a = 0 \<and> b = 0 then
                           (case parse_chars cs2 of
                              None \<Rightarrow> None
                            | Some (s, r) \<Rightarrow> Some (char_of (16 * x + y) # s, r))
                         else None
                     | _ \<Rightarrow> None)
                | _ \<Rightarrow> None)
             else
               (case unescape e of
                  None \<Rightarrow> None
                | Some ch \<Rightarrow>
                    (case parse_chars cs1 of
                       None \<Rightarrow> None
                     | Some (s, r) \<Rightarrow> Some (ch # s, r))))
      else if (of_char c :: nat) < 32 then None
      else
        (case parse_chars cs of
           None \<Rightarrow> None
         | Some (s, r) \<Rightarrow> Some (c # s, r)))"

text \<open>An integer literal: an optional sign, then \<open>0\<close> or digits without a leading zero;
  a fraction or an exponent after it is refused.\<close>

definition parse_digits :: "string \<Rightarrow> (nat \<times> string) option" where
  "parse_digits s =
     (let ds = takeWhile is_digit s;
          r = dropWhile is_digit s
      in if ds = [] \<or> (1 < length ds \<and> hd ds = CHR ''0'') then None
         else if r \<noteq> [] \<and> hd r \<in> {CHR ''.'', CHR ''e'', CHR ''E''} then None
         else Some (digits_value ds, r))"

fun parse_number :: "string \<Rightarrow> (json \<times> string) option" where
  "parse_number [] = None"
| "parse_number (c # cs) =
     (if c = CHR ''-''
      then (case parse_digits cs of None \<Rightarrow> None | Some (n, r) \<Rightarrow> Some (JNum (- int n), r))
      else (case parse_digits (c # cs) of None \<Rightarrow> None | Some (n, r) \<Rightarrow> Some (JNum (int n), r)))"

definition expect :: "string \<Rightarrow> string \<Rightarrow> string option" where
  "expect lit s = (if take (length lit) s = lit then Some (drop (length lit) s) else None)"

text \<open>Recursive descent; the first argument bounds the number of nested calls.  A
  property read from the text is set on the object under construction, so a repeated key
  keeps its last value.\<close>

fun parse_value :: "nat \<Rightarrow> string \<Rightarrow> (json \<times> string) option"
and parse_elements :: "nat \<Rightarrow> string \<Rightarrow> (json list \<times> string) option"
and parse_members :: "nat \<Rightarrow> doc \<Rightarrow> string \<Rightarrow> (doc \<times> string) option"
where
  "parse_value 0 s = None"
| "parse_value (Suc n) s =
     (case skip_ws s of
        [] \<Rightarrow> None
      | c # cs \<Rightarrow>
          if c = CHR ''n'' then map_option (Pair JNull) (expect ''ull'' cs)
          else if c = CHR ''t'' then map_option (Pair (JBool True)) (expect ''rue'' cs)
          else if c = CHR ''f'' then map_option (Pair (JBool False)) (expect ''alse'' cs)
          else if c = CHR 0x22 then
            (case parse_chars cs of None \<Rightarrow> None | Some (str, r) \<Rightarrow> Some (JStr str, r))
          else if c = CHR ''['' then
            (case skip_ws cs of
               [] \<Rightarrow> None
             | c1 # r1 \<Rightarrow>
                 if c1 = CHR '']'' then Some (JArr [], r1)
                 else (case parse_elements n cs of
                         None \<Rightarrow> None
                       | Some (vs, r) \<Rightarrow> Some (JArr vs, r)))
          else if c = CHR ''{'' then
            (case skip_ws cs of
               [] \<Rightarrow> None
             | c1 # r1 \<Rightarrow>
                 if c1 = CHR ''}'' then Some (JObj [], r1)
                 else (case parse_members n [] cs of
                         None \<Rightarrow> None
                       | Some (kvs, r) \<Rightarrow> Some (JObj kvs, r)))
          else parse_number (c # cs))"
| "parse_elements 0 s = None"
| "parse_elements (Suc n) s =
     (case parse_value n s of
        None \<Rightarrow> None
      | Some (v, r) \<Rightarrow>
          (case skip_ws r of
             [] \<Rightarrow> None
           | c # r1 \<Rightarrow>
               if c = CHR '']'' then Some ([v], r1)
               else if c = CHR '','' then
                 (case parse_elements n r1 of
                    None \<Rightarrow> None
                  | Some (vs, r2) \<Rightarrow> Some (v # vs, r2))
               else None))"
| "parse_members 0 acc s = None"
| "parse_members (Suc n) acc s =
     (case skip_ws s of
        [] \<Rightarrow> None
      | q # cs \<Rightarrow>
          if q \<noteq> CHR 0x22 then None
          else
            (case parse_chars cs of
               None \<Rightarrow> None
             | Some (k, r) \<Rightarrow>
                 (case skip_ws r of
                    [] \<Rightarrow> None
                  | colon # r1 \<Rightarrow>
                      if colon \<noteq> CHR '':'' then None
                      else
                        (case parse_value n r1 of
                           None \<Rightarrow> None
                         | Some (v, r2) \<Rightarrow>
                             (case skip_ws r2 of
                                [] \<Rightarrow> None
                              | c # r3 \<Rightarrow>
                                  if c = CHR ''}'' then Some (obj_set k v acc, r3)
                                  else if c = CHR '','' then parse_members n (obj_set k v acc) r3
                                  else None)))))"

definition parse :: "string \<Rightarrow> json option" where
  "parse s =
     (case parse_value (2 * length s + 2) s of
        None \<Rightarrow> None
      | Some (v, r) \<Rightarrow> if skip_ws r = [] then Some v else None)"

definition pad12 :: "string \<Rightarrow> string" where
  "pad12 s = replicate (12 - length s) (CHR ''0'') @ s"

definition uuid_of :: "nat \<Rightarrow> string" where
  "uuid_of n = ''00000000-0000-4000-8000-'' @ pad12 (show_nat n)"

definition browser :: host where
  "browser = \<lparr>JSON_parse = parse, JSON_stringify = stringify, uuidv4 = uuid_of\<rparr>"

definition fresh_world :: world where
  "fresh_world =
     \<lparr>localStorage = Map.empty, setItem_calls = [], uuid_calls = 0, console = [],
      objects = (\<lambda>r. [])\<rparr>"

section \<open>Vocabulary of the properties\<close>

text \<open>The item is an object whose \<open>_id\<close> is the string \<open>ident\<close>: what
  \<open>item._id === ident\<close> yields on an item that is not \<open>null\<close>.\<close>

fun has_id :: "string \<Rightarrow> json \<Rightarrow> bool" where
  "has_id ident (JObj kvs) = (map_of kvs ''_id'' = Some (JStr ident))"
| "has_id ident v = False"

text \<open>\<open>item[key]\<close> as a plain value, for an item that is not \<open>null\<close>.\<close>

definition value_at :: "json \<Rightarrow> string \<Rightarrow> json option" where
  "value_at item k = (case get_prop item k of Inl e \<Rightarrow> None | Inr x \<Rightarrow> x)"

text \<open>Every condition of the filter holds of the item.\<close>

definition matches :: "(string \<times> string) list \<Rightarrow> json \<Rightarrow> bool" where
  "matches q item = (\<forall>(k, v) \<in> set q. value_at item k = Some (JStr v))"

text \<open>The host reads back the text it prints for a value; the text is not empty.\<close>

definition round_trips :: "host \<Rightarrow> json \<Rightarrow> bool" where
  "round_trips h v = (JSON_stringify h v \<noteq> [] \<and> JSON_parse h (JSON_stringify h v) = Some v)"

text \<open>The references \<open>create\<close> is given.\<close>

fun refs_of :: "new_docs \<Rightarrow> nat list" where
  "refs_of (Many rs) = rs"
| "refs_of (One r) = [r]"

text \<open>A document with its identifier populated: kept as it is when its \<open>_id\<close> is truthy,
  given the identifier \<open>u\<close> otherwise.\<close>

definition with_id :: "string \<Rightarrow> doc \<Rightarrow> doc" where
  "with_id u d = (if truthy (map_of d ''_id'') then d else obj_set ''_id'' (JStr u) d)"

text \<open>The results of calling \<open>update\<close> once per entry, in input order, each call in the
  world the call before it left; an exception ends the run.\<close>

fun update_each ::
  "host \<Rightarrow> repository \<Rightarrow> update_many_doc list \<Rightarrow> world \<Rightarrow> (error + nat list) \<times> world"
where
  "update_each h this [] w = (Inr [], w)"
| "update_each h this ((ident, d) # rest) w =
     (case update h this ident d w of
        (Inl e, w1) \<Rightarrow> (Inl e, w1)
      | (Inr n, w1) \<Rightarrow>
          (case update_each h this rest w1 of
             (Inl e, w2) \<Rightarrow> (Inl e, w2)
           | (Inr ns, w2) \<Rightarrow> (Inr (n # ns), w2)))"

subsection \<open>Values a program can hold\<close>

text \<open>What may follow a value in a text: nothing, or a comma or a closing bracket.\<close>

definition ends_value :: "string \<Rightarrow> bool" where
  "ends_value r = (r = [] \<or> hd r = CHR '','' \<or> hd r = CHR '']'' \<or> hd r = CHR ''}'')"

text \<open>Keys in property order: array indices come before the other keys, in ascending
  order.\<close>

definition key_le :: "string \<Rightarrow> string \<Rightarrow> bool" where
  "key_le k1 k2 =
     (case array_index k2 of
        None \<Rightarrow> True
      | Some n2 \<Rightarrow> (case array_index k1 of None \<Rightarrow> False | Some n1 \<Rightarrow> n1 \<le> n2))"

definition key_order :: "string list \<Rightarrow> bool" where
  "key_order ks = sorted_wrt key_le ks"

text \<open>A value as a JavaScript program can hold it: every object has distinct keys, in
  property order.\<close>

fun wf_json :: "json \<Rightarrow> bool" where
  "wf_json (JArr xs) = list_all wf_json xs"
| "wf_json (JObj kvs) =
     (distinct (map fst kvs) \<and> key_order (map fst kvs) \<and> list_all (\<lambda>(k, v). wf_json v) kvs)"
| "wf_json v = True"

text \<open>The characters a printed value can begin with.\<close>

definition opens_value :: "char \<Rightarrow> bool" where
  "opens_value c =
     (c \<in> {CHR ''n'', CHR ''t'', CHR ''f'', CHR 0x22, CHR ''['', CHR ''{'', CHR ''-''} \<or> is_digit c)"

text \<open>A bound on the nested calls the reader makes for the text of a value.\<close>

fun weight :: "json \<Rightarrow> nat" where
  "weight (JArr xs) = Suc (sum_list (map (\<lambda>x. Suc (weight x)) xs))"
| "weight (JObj kvs) = Suc (sum_list (map (\<lambda>(k, v). Suc (weight v)) kvs))"
| "weight v = Suc 0"

subsection \<open>Example worlds\<close>

definition notes_repo :: repository where
  "notes_repo = \<lparr>collection = ''notes'', verbose = False\<rparr>"

text \<open>A world whose storage holds the given text under the key \<open>notes\<close>.\<close>

definition holding_text :: "string \<Rightarrow> world" where
  "holding_text s = fresh_world\<lparr>localStorage := [''notes'' \<mapsto> s]\<rparr>"

definition holding :: "json \<Rightarrow> world" where
  "holding v = holding_text (stringify v)"

text \<open>Two notes: one stored with a generated identifier, one with the identifier \<open>b\<close>.\<close>

definition note_a :: doc where
  "note_a = [(''text'', JStr ''hi''), (''_id'', JStr ''00000000-0000-4000-8000-000000000000'')]"

definition note_b :: doc where
  "note_b = [(''_id'', JStr ''b''), (''text'', JStr ''yo'')]"

text \<open>The world in which the caller holds the given documents, at the addresses
  \<open>0\<close>, \<open>1\<close>, and so on.\<close>

definition given :: "doc list \<Rightarrow> world \<Rightarrow> world" where
  "given ds w = w\<lparr>objects := (\<lambda>r. if r < length ds then ds ! r else [])\<rparr>"

text \<open>Two documents that were created with the same explicit identifier \<open>x\<close>.\<close>

definition twin :: doc where
  "twin = [(''_id'', JStr ''x''), (''done'', JBool False)]"

definition twins_world :: world where
  "twins_world = snd (create browser notes_repo (Many [0, 1]) (given [twin, twin] fresh_world))"

section \<open>Facts about the building blocks\<close>

lemma array_index_id [simp]: "array_index ''_id'' = None"
  by (simp add: array_index_def is_digit_def)

lemma id_is_has_id: "item \<noteq> JNull \<Longrightarrow> id_is ident item = Inr (has_id ident item)"
  by (cases item) (simp_all add: id_is_def)

lemma id_isnt_has_id: "item \<noteq> JNull \<Longrightarrow> id_isnt ident item = Inr (\<not> has_id ident item)"
  by (cases item) (simp_all add: id_isnt_def)

lemma id_not_among_has_id:
  "item \<noteq> JNull \<Longrightarrow> id_not_among idents item = Inr (\<not> (\<exists>i \<in> set idents. has_id i item))"
  by (cases item) (auto simp add: id_not_among_def list_ex_iff)

lemma filterE_total:
  "(\<And>x. x \<in> set xs \<Longrightarrow> p x = Inr (q x)) \<Longrightarrow> filterE p xs = Inr (filter q xs)"
  by (induction xs) simp_all

lemma findIndex_none:
  "(\<And>x. x \<in> set xs \<Longrightarrow> p x = Inr False) \<Longrightarrow> findIndex p xs = Inr None"
  by (induction xs) simp_all

lemma findIndex_first:
  "i < length xs \<Longrightarrow> p (xs ! i) = Inr True \<Longrightarrow> (\<And>j. j < i \<Longrightarrow> p (xs ! j) = Inr False)
   \<Longrightarrow> findIndex p xs = Inr (Some i)"
proof (induction xs arbitrary: i)
  case Nil
  then show ?case by simp
next
  case (Cons x xs)
  show ?case
  proof (cases i)
    case 0
    with Cons.prems show ?thesis by simp
  next
    case (Suc k)
    have head: "p x = Inr False" using Cons.prems(3) [of 0] Suc by simp
    have "findIndex p xs = Inr (Some k)"
    proof (rule Cons.IH)
      show "k < length xs" using Cons.prems(1) Suc by simp
      show "p (xs ! k) = Inr True" using Cons.prems(2) Suc by simp
      show "p (xs ! j) = Inr False" if "j < k" for j
        using Cons.prems(3) [of "Suc j"] that Suc by simp
    qed
    with head show ?thesis by (simp add: Suc)
  qed
qed

lemma findIndex_Some_D:
  "findIndex p xs = Inr (Some i) \<Longrightarrow> i < length xs \<and> p (xs ! i) = Inr True"
proof (induction xs arbitrary: i)
  case Nil
  then show ?case by simp
next
  case (Cons x xs)
  then show ?case
    by (cases i) (auto split: sum.splits bool.splits option.splits)
qed

subsection \<open>Objects\<close>

lemma map_of_obj_replace_at:
  "map_of d k \<noteq> None \<Longrightarrow> map_of (obj_replace k v d) x = (if x = k then Some v else map_of d x)"
  by (induction d) auto

lemma map_of_obj_replace:
  "k \<in> set (map fst d) \<Longrightarrow> map_of (obj_replace k v d) = (map_of d)(k \<mapsto> v)"
  by (simp add: fun_eq_iff map_of_obj_replace_at map_of_eq_None_iff)

lemma map_of_obj_insert:
  "k \<notin> set (map fst d) \<Longrightarrow> map_of (obj_insert k v d) = (map_of d)(k \<mapsto> v)"
  by (induction d) (auto simp add: fun_eq_iff split: option.splits)

lemma map_of_obj_set: "map_of (obj_set k v d) = (map_of d)(k \<mapsto> v)"
  by (simp add: obj_set_def map_of_obj_replace map_of_obj_insert)

lemma obj_set_id_absent: "''_id'' \<notin> set (map fst d) \<Longrightarrow> obj_set ''_id'' v d = d @ [(''_id'', v)]"
  by (induction d) (auto simp add: obj_set_def)

lemma map_of_fold_obj_set:
  "map_of (fold (\<lambda>(k, v). obj_set k v) b a) = map_of a ++ map_of (rev b)"
proof (induction b arbitrary: a)
  case Nil
  then show ?case by simp
next
  case (Cons kv b)
  obtain k v where kv: "kv = (k, v)" by (cases kv)
  show ?case
    by (simp add: kv Cons.IH map_of_obj_set fun_eq_iff map_add_def split: option.splits)
qed

lemma map_of_spread: "map_of (spread a b) = map_of a ++ map_of (rev b)"
  by (simp add: spread_def map_of_fold_obj_set)

lemma map_of_rev_distinct: "distinct (map fst b) \<Longrightarrow> map_of (rev b) = map_of b"
  by (simp add: map_of_inject_set rev_map [symmetric])

subsection \<open>Storage and \<open>read\<close>\<close>

lemma stored_text_setItem:
  "stored_text this (setItem (collection this) s w) = (if s = [] then ''[]'' else s)"
  by (simp add: stored_text_def getItem_def setItem_def)

lemma stored_text_uuid_calls [simp]: "stored_text this (w\<lparr>uuid_calls := n\<rparr>) = stored_text this w"
  by (simp add: stored_text_def getItem_def)

lemma stored_text_console_warn [simp]: "stored_text this (console_warn m a w) = stored_text this w"
  by (simp add: stored_text_def getItem_def console_warn_def)

lemma read_world [simp]: "snd (read h this q w) = w"
  by (simp add: read_def split: option.splits json.splits sum.splits)

lemma read_syntax_error:
  "JSON_parse h (stored_text this w) = None \<Longrightarrow> read h this q w = (Inl SyntaxError, w)"
  by (simp add: read_def)

lemma read_all: "JSON_parse h (stored_text this w) = Some v \<Longrightarrow> read h this None w = (Inr v, w)"
  by (simp add: read_def)

lemma read_all_iff:
  "fst (read h this None w) = Inr v \<longleftrightarrow> JSON_parse h (stored_text this w) = Some v"
  by (simp add: read_def split: option.splits)

lemma read_all_eq:
  "fst (read h this None w) = Inr v \<Longrightarrow> read h this None w = (Inr v, w)"
  by (simp add: read_all_iff read_all)

lemma read_after_setItem:
  "round_trips h v \<Longrightarrow>
   read h this None (setItem (collection this) (JSON_stringify h v) w) =
     (Inr v, setItem (collection this) (JSON_stringify h v) w)"
  by (simp add: round_trips_def read_all stored_text_setItem)

subsection \<open>Items without \<open>null\<close>\<close>

lemma not_null_member: "JNull \<notin> set xs \<Longrightarrow> x \<in> set xs \<Longrightarrow> x \<noteq> JNull"
  by auto

lemma filterE_id_isnt:
  "JNull \<notin> set xs \<Longrightarrow> filterE (id_isnt ident) xs = Inr (filter (\<lambda>x. \<not> has_id ident x) xs)"
  by (rule filterE_total) (simp add: id_isnt_has_id not_null_member)

lemma filterE_id_not_among:
  "JNull \<notin> set xs \<Longrightarrow>
   filterE (id_not_among idents) xs = Inr (filter (\<lambda>x. \<not> (\<exists>i \<in> set idents. has_id i x)) xs)"
  by (rule filterE_total) (simp add: id_not_among_has_id not_null_member)

lemma findIndex_id_is_none:
  "JNull \<notin> set xs \<Longrightarrow> \<forall>x \<in> set xs. \<not> has_id ident x \<Longrightarrow> findIndex (id_is ident) xs = Inr None"
  by (rule findIndex_none) (simp add: id_is_has_id not_null_member)

lemma length_filter_eq_iff: "length (filter P xs) = length xs \<longleftrightarrow> (\<forall>x \<in> set xs. P x)"
proof
  assume eq: "length (filter P xs) = length xs"
  show "\<forall>x \<in> set xs. P x"
  proof
    fix x assume "x \<in> set xs"
    show "P x"
    proof (rule ccontr)
      assume "\<not> P x"
      with \<open>x \<in> set xs\<close> have "length (filter P xs) < length xs" by (rule length_filter_less)
      with eq show False by simp
    qed
  qed
next
  assume "\<forall>x \<in> set xs. P x"
  then show "length (filter P xs) = length xs" by simp
qed

subsection \<open>The operations on a collection that parses to an array\<close>

lemma get_prop_value_at: "item \<noteq> JNull \<Longrightarrow> get_prop item k = Inr (value_at item k)"
  by (cases item) (simp_all add: value_at_def)

lemma every_matches: "item \<noteq> JNull \<Longrightarrow> every item q = Inr (matches q item)"
  by (induction q) (auto simp add: matches_def get_prop_value_at)

lemma assign_ids_frame:
  "localStorage (assign_ids h rs w) = localStorage w
   \<and> setItem_calls (assign_ids h rs w) = setItem_calls w
   \<and> console (assign_ids h rs w) = console w"
  by (induction rs arbitrary: w) simp_all

lemma create_on_array:
  assumes "fst (read h this None w) = Inr (JArr xs)"
  shows "create h this nd w =
    (Inr (map (objects (assign_ids h (refs_of nd) w)) (refs_of nd)),
     setItem (collection this)
       (JSON_stringify h
          (JArr (xs @ map (\<lambda>r. JObj (objects (assign_ids h (refs_of nd) w) r)) (refs_of nd))))
       (assign_ids h (refs_of nd) w))"
proof -
  have "read h this None w = (Inr (JArr xs), w)" using assms by (rule read_all_eq)
  then show ?thesis
    by (cases nd) (simp_all add: create_def Let_def)
qed

lemma update_on_array:
  assumes "fst (read h this None w) = Inr (JArr xs)" and "ident \<noteq> []"
  shows "update h this ident upd w =
    (case findIndex (id_is ident) xs of
       Inl e \<Rightarrow> (Inl e, w)
     | Inr None \<Rightarrow> (Inr 0, w)
     | Inr (Some index) \<Rightarrow>
         (Inr 1,
          setItem (collection this)
            (JSON_stringify h
               (JArr (xs[index := JObj (spread (own_props (xs ! index))
                                          (filter (\<lambda>(k, v). k \<noteq> ''_id'') upd))])))
            (if verbose this
             then console_warn (''Trying to update item _id: '' @ ident @ '' with'')
                    (map_of upd ''_id'') w
             else w)))"
proof -
  have "read h this None w = (Inr (JArr xs), w)" using assms(1) by (rule read_all_eq)
  then show ?thesis
    using assms(2) by (simp add: update_def Let_def split: sum.splits option.splits)
qed

lemma delete_on_array:
  assumes "fst (read h this None w) = Inr (JArr xs)" and "ident \<noteq> []" and "JNull \<notin> set xs"
  shows "delete h this ident w =
    (if \<forall>x \<in> set xs. \<not> has_id ident x then (Inr 0, w)
     else (Inr 1,
           setItem (collection this)
             (JSON_stringify h (JArr (filter (\<lambda>x. \<not> has_id ident x) xs))) w))"
proof -
  have "read h this None w = (Inr (JArr xs), w)" using assms(1) by (rule read_all_eq)
  moreover have "(length xs = length (filter (\<lambda>x. \<not> has_id ident x) xs)) =
      (\<forall>x \<in> set xs. \<not> has_id ident x)"
    using length_filter_eq_iff [of "\<lambda>x. \<not> has_id ident x" xs] by auto
  ultimately show ?thesis
    using assms(2,3) by (simp add: delete_def filterE_id_isnt)
qed

lemma deleteMany_on_array:
  assumes "fst (read h this None w) = Inr (JArr xs)" and "idents \<noteq> []" and "JNull \<notin> set xs"
  shows "deleteMany h this idents w =
    (if \<forall>x \<in> set xs. \<not> (\<exists>i \<in> set idents. has_id i x) then (Inr 0, w)
     else (Inr (length xs - length (filter (\<lambda>x. \<not> (\<exists>i \<in> set idents. has_id i x)) xs)),
           setItem (collection this)
             (JSON_stringify h (JArr (filter (\<lambda>x. \<not> (\<exists>i \<in> set idents. has_id i x)) xs))) w))"
proof -
  let ?keep = "\<lambda>x. \<not> (\<exists>i \<in> set idents. has_id i x)"
  have rd: "read h this None w = (Inr (JArr xs), w)" using assms(1) by (rule read_all_eq)
  have le: "length (filter ?keep xs) \<le> length xs" by (rule length_filter_le)
  have "(length xs - length (filter ?keep xs) = 0) = (length (filter ?keep xs) = length xs)"
    using le by arith
  also have "\<dots> = (\<forall>x \<in> set xs. ?keep x)" by (rule length_filter_eq_iff)
  finally have zero: "(length xs - length (filter ?keep xs) = 0) = (\<forall>x \<in> set xs. ?keep x)" .
  show ?thesis
    using assms(2,3) rd zero by (simp add: deleteMany_def filterE_id_not_among Let_def)
qed

lemma obj_replace_twice: "obj_replace k v2 (obj_replace k v1 d) = obj_replace k v2 d"
  by (induction d) auto

lemma obj_replace_insert:
  "k \<notin> set (map fst d) \<Longrightarrow> obj_replace k v2 (obj_insert k v1 d) = obj_insert k v2 d"
  by (induction d) (auto split: option.splits)

lemma key_after_obj_set: "k \<in> set (map fst (obj_set k v d))"
proof -
  have "map_of (obj_set k v d) k = Some v" by (simp add: map_of_obj_set)
  then show ?thesis by (metis map_of_eq_None_iff option.distinct(1) set_map)
qed

lemma obj_set_twice: "obj_set k v2 (obj_set k v1 d) = obj_set k v2 d"
proof (cases "k \<in> set (map fst d)")
  case True
  then show ?thesis
    using key_after_obj_set [of k v1 d] by (simp add: obj_set_def obj_replace_twice)
next
  case False
  then show ?thesis
    using key_after_obj_set [of k v1 d] by (simp add: obj_set_def obj_replace_insert)
qed

text \<open>What the \<open>forEach\<close> of \<open>create\<close> leaves in the caller's objects: an object that is not
  given, or whose \<open>_id\<close> is truthy, is as it was; a given object whose \<open>_id\<close> is falsy has
  one of the identifiers drawn.\<close>

lemma assign_ids_objects:
  "uuid_calls w \<le> uuid_calls (assign_ids h rs w)
   \<and> (r \<notin> set rs \<or> truthy (map_of (objects w r) ''_id'') \<longrightarrow>
        objects (assign_ids h rs w) r = objects w r)
   \<and> (r \<in> set rs \<and> \<not> truthy (map_of (objects w r) ''_id'') \<longrightarrow>
        (\<exists>m. uuid_calls w \<le> m \<and> m < uuid_calls (assign_ids h rs w)
           \<and> objects (assign_ids h rs w) r =
               obj_set ''_id'' (JStr (uuidv4 h m)) (objects w r)))"
proof (induction rs arbitrary: w)
  case Nil
  then show ?case by simp
next
  case (Cons r0 rs)
  show ?case
  proof (cases "truthy (map_of (objects w r0) ''_id'')")
    case True
    then show ?thesis using Cons.IH [of w] by auto
  next
    case False
    let ?d = "obj_set ''_id'' (JStr (uuidv4 h (uuid_calls w))) (objects w r0)"
    let ?w1 = "w\<lparr>objects := (objects w)(r0 := ?d), uuid_calls := Suc (uuid_calls w)\<rparr>"
    let ?w2 = "assign_ids h rs ?w1"
    have step: "assign_ids h (r0 # rs) w = ?w2" using False by simp
    note IH = Cons.IH [of ?w1]
    have le: "Suc (uuid_calls w) \<le> uuid_calls ?w2" using IH by simp
    show ?thesis
    proof (cases "r = r0")
      case other: False
      then show ?thesis using IH le unfolding step by (auto intro: Suc_leD)
    next
      case same: True
      have given: "r \<in> set (r0 # rs)" using same by simp
      have "\<exists>m. uuid_calls w \<le> m \<and> m < uuid_calls ?w2
          \<and> objects ?w2 r = obj_set ''_id'' (JStr (uuidv4 h m)) (objects w r)"
      proof (cases "r0 \<in> set rs \<and> \<not> truthy (map_of ?d ''_id'')")
        case again: True
        with IH same obtain m where m: "Suc (uuid_calls w) \<le> m" "m < uuid_calls ?w2"
          and obj: "objects ?w2 r = obj_set ''_id'' (JStr (uuidv4 h m)) ?d"
          by auto
        have "objects ?w2 r = obj_set ''_id'' (JStr (uuidv4 h m)) (objects w r)"
          using obj unfolding same by (simp add: obj_set_twice)
        with m show ?thesis by (auto intro: Suc_leD)
      next
        case kept: False
        with IH same have "objects ?w2 r = ?d" by auto
        with le same show ?thesis by (intro exI [of _ "uuid_calls w"]) auto
      qed
      with False same le given show ?thesis unfolding step by (auto intro: Suc_leD)
    qed
  qed
qed

lemma assign_ids_count:
  assumes "\<forall>n. uuidv4 h n \<noteq> []"
  shows "uuid_calls (assign_ids h rs w) =
    uuid_calls w + card {r \<in> set rs. \<not> truthy (map_of (objects w r) ''_id'')}"
proof (induction rs arbitrary: w)
  case Nil
  then show ?case by simp
next
  case (Cons r0 rs)
  show ?case
  proof (cases "truthy (map_of (objects w r0) ''_id'')")
    case True
    then have "{r \<in> set (r0 # rs). \<not> truthy (map_of (objects w r) ''_id'')}
        = {r \<in> set rs. \<not> truthy (map_of (objects w r) ''_id'')}"
      by auto
    with True Cons.IH [of w] show ?thesis by simp
  next
    case False
    let ?d = "obj_set ''_id'' (JStr (uuidv4 h (uuid_calls w))) (objects w r0)"
    let ?w1 = "w\<lparr>objects := (objects w)(r0 := ?d), uuid_calls := Suc (uuid_calls w)\<rparr>"
    let ?F = "{r \<in> set rs. \<not> truthy (map_of (objects w r) ''_id'')}"
    have now: "truthy (map_of ?d ''_id'')" using assms by (simp add: map_of_obj_set)
    have rest: "{r \<in> set rs. \<not> truthy (map_of (objects ?w1 r) ''_id'')} = ?F - {r0}"
      using now by auto
    have all: "{r \<in> set (r0 # rs). \<not> truthy (map_of (objects w r) ''_id'')}
        = insert r0 (?F - {r0})"
      using False by auto
    have "card (insert r0 (?F - {r0})) = Suc (card (?F - {r0}))"
      by (intro card_insert_disjoint) simp_all
    with False Cons.IH [of ?w1] rest all show ?thesis by simp
  qed
qed



lemma with_id_truthy: "u \<noteq> [] \<Longrightarrow> truthy (map_of (with_id u d) ''_id'')"
  by (simp add: with_id_def map_of_obj_set)


lemma has_id_object: "has_id ident item \<Longrightarrow> \<exists>d. item = JObj d \<and> map_of d ''_id'' = Some (JStr ident)"
  by (cases item) simp_all

lemma forEach_update_sum:
  "forEach_update h this docs count w =
     (case update_each h this docs w of
        (Inl e, w') \<Rightarrow> (Inl e, w')
      | (Inr ns, w') \<Rightarrow> (Inr (count + sum_list ns), w'))"
proof (induction docs arbitrary: count w)
  case Nil
  then show ?case by simp
next
  case (Cons e docs)
  obtain ident d where e: "e = (ident, d)" by (cases e)
  show ?case
    by (simp add: e Cons.IH split: prod.splits sum.splits)
qed

lemma update_zero_or_one: "update h this ident d w = (Inr n, w') \<Longrightarrow> n = 0 \<or> n = 1"
  by (auto simp add: update_def Let_def split: if_splits prod.splits sum.splits json.splits option.splits)

lemma update_each_results:
  "update_each h this docs w = (Inr ns, w') \<Longrightarrow>
     length ns = length docs \<and> (\<forall>n \<in> set ns. n = 0 \<or> n = 1)"
proof (induction docs arbitrary: ns w w')
  case Nil
  then show ?case by auto
next
  case (Cons e docs)
  obtain ident d where e: "e = (ident, d)" by (cases e)
  obtain r w1 where u: "update h this ident d w = (r, w1)" by (cases "update h this ident d w")
  from Cons.prems obtain n where r: "r = Inr n"
    by (cases r) (simp_all add: e u)
  obtain r2 w2 where rest: "update_each h this docs w1 = (r2, w2)"
    by (cases "update_each h this docs w1")
  from Cons.prems obtain ms where r2: "r2 = Inr ms" and ns: "ns = n # ms"
    by (cases r2) (auto simp add: e u r rest)
  have "length ms = length docs \<and> (\<forall>n \<in> set ms. n = 0 \<or> n = 1)"
    using rest r2 Cons.IH [of w1 ms w2] by simp
  moreover have "n = 0 \<or> n = 1" using u r by (auto dest: update_zero_or_one)
  ultimately show ?case by (simp add: ns)
qed

lemma sum_list_bits: "\<forall>n \<in> set ns. n = 0 \<or> n = (1::nat) \<Longrightarrow> sum_list ns = length (filter (\<lambda>n. n = 1) ns)"
  by (induction ns) auto

lemma forEach_update_syntax_error:
  assumes "JSON_parse h (stored_text this w) = None" and "\<exists>e \<in> set docs. fst e \<noteq> []"
  shows "forEach_update h this docs count w = (Inl SyntaxError, w)"
  using assms(2)
proof (induction docs arbitrary: count)
  case Nil
  then show ?case by simp
next
  case (Cons e docs)
  obtain ident d where e: "e = (ident, d)" by (cases e)
  show ?case
  proof (cases "ident = []")
    case True
    with Cons.prems e have "\<exists>e \<in> set docs. fst e \<noteq> []" by simp
    then have "forEach_update h this docs c w = (Inl SyntaxError, w)" for c by (rule Cons.IH)
    then show ?thesis by (simp add: e True update_def)
  next
    case False
    then show ?thesis by (simp add: e update_def read_syntax_error [OF assms(1)])
  qed
qed

section \<open>The example host reads back what it prints\<close>

text \<open>
  The printer and the reader of the example host are inverse on every well-formed value,
  the operations keep values well-formed, and the reader only produces well-formed values.
  So the example host reads back every array that an operation writes from a store it
  could read and from well-formed documents.
\<close>

subsection \<open>Digits\<close>

lemma of_char_digit_char: "n < 10 \<Longrightarrow> (of_char (digit_char n) :: nat) = 48 + n"
  by (simp add: digit_char_def)

lemma is_digit_digit_char: "n < 10 \<Longrightarrow> is_digit (digit_char n)"
  by (simp add: is_digit_def of_char_digit_char)

lemma digits_value_snoc: "digits_value (ds @ [c]) = 10 * digits_value ds + ((of_char c :: nat) - 48)"
  by (simp add: digits_value_def)

lemma show_nat_digits: "list_all is_digit (show_nat n)"
  by (induction n rule: show_nat.induct) (subst show_nat.simps, simp add: is_digit_digit_char)

lemma show_nat_value: "digits_value (show_nat n) = n"
proof (induction n rule: show_nat.induct)
  case (1 n)
  show ?case
  proof (cases "n < 10")
    case True
    then show ?thesis
      by (subst show_nat.simps) (simp add: digits_value_def of_char_digit_char)
  next
    case False
    then show ?thesis
      using 1 by (subst show_nat.simps) (simp add: digits_value_snoc of_char_digit_char)
  qed
qed

lemma show_nat_nonempty: "show_nat n \<noteq> []"
  by (subst show_nat.simps) simp

lemma show_nat_hd_digit: "is_digit (hd (show_nat n))"
  using show_nat_digits [of n] show_nat_nonempty [of n]
  by (cases "show_nat n") simp_all

lemma digit_char_zero: "n < 10 \<Longrightarrow> digit_char n = CHR ''0'' \<longleftrightarrow> n = 0"
proof
  assume "n < 10" and "digit_char n = CHR ''0''"
  then have "(48 + n) = (of_char (CHR ''0'') :: nat)" using of_char_digit_char [of n] by simp
  then show "n = 0" by simp
next
  assume "n = 0"
  moreover have "char_of (48::nat) = CHR ''0''" by code_simp
  ultimately show "digit_char n = CHR ''0''" by (simp add: digit_char_def)
qed

lemma show_nat_canonical: "1 < length (show_nat n) \<Longrightarrow> hd (show_nat n) \<noteq> CHR ''0''"
proof (induction n rule: show_nat.induct)
  case (1 n)
  show ?case
  proof (cases "n < 10")
    case True
    then have "show_nat n = [digit_char n]" by (subst show_nat.simps) simp
    with "1.prems" show ?thesis by simp
  next
    case False
    then have unfold: "show_nat n = show_nat (n div 10) @ [digit_char (n mod 10)]"
      by (subst show_nat.simps) simp
    then have hd: "hd (show_nat n) = hd (show_nat (n div 10))"
      by (simp add: show_nat_nonempty)
    show ?thesis
    proof (cases "n div 10 < 10")
      case True
      then have "show_nat (n div 10) = [digit_char (n div 10)]" by (subst show_nat.simps) simp
      moreover have "n div 10 \<noteq> 0" using False by simp
      ultimately show ?thesis using True by (simp add: hd digit_char_zero)
    next
      case big: False
      then have "show_nat (n div 10) = show_nat (n div 10 div 10) @ [digit_char (n div 10 mod 10)]"
        by (subst show_nat.simps) simp
      then have "1 < length (show_nat (n div 10))"
        using show_nat_nonempty [of "n div 10 div 10"]
        by (cases "show_nat (n div 10 div 10)") simp_all
      with "1.IH" False show ?thesis by (simp add: hd)
    qed
  qed
qed


subsection \<open>Numbers\<close>

lemma takeWhile_digits:
  "list_all is_digit ds \<Longrightarrow> r = [] \<or> \<not> is_digit (hd r) \<Longrightarrow> takeWhile is_digit (ds @ r) = ds"
  by (simp add: list_all_iff takeWhile_eq_Nil_iff)

lemma dropWhile_digits:
  "list_all is_digit ds \<Longrightarrow> r = [] \<or> \<not> is_digit (hd r) \<Longrightarrow> dropWhile is_digit (ds @ r) = r"
  by (simp add: list_all_iff dropWhile_eq_self_iff)

lemma ends_value_not_digit: "ends_value r \<Longrightarrow> r = [] \<or> \<not> is_digit (hd r)"
  by (auto simp add: ends_value_def is_digit_def)

lemma ends_value_not_fraction:
  "ends_value r \<Longrightarrow> \<not> (r \<noteq> [] \<and> hd r \<in> {CHR ''.'', CHR ''e'', CHR ''E''})"
  by (auto simp add: ends_value_def)

lemma minus_not_digit: "\<not> is_digit (CHR ''-'')"
  by (simp add: is_digit_def)

lemma parse_digits_show_nat:
  assumes "ends_value r"
  shows "parse_digits (show_nat n @ r) = Some (n, r)"
proof -
  have nd: "r = [] \<or> \<not> is_digit (hd r)" using assms by (rule ends_value_not_digit)
  have tw: "takeWhile is_digit (show_nat n @ r) = show_nat n"
    using show_nat_digits nd by (rule takeWhile_digits)
  have dw: "dropWhile is_digit (show_nat n @ r) = r"
    using show_nat_digits nd by (rule dropWhile_digits)
  show ?thesis
    unfolding parse_digits_def Let_def tw dw
    using ends_value_not_fraction [OF assms] show_nat_canonical [of n]
    by (auto simp add: show_nat_nonempty show_nat_value)
qed

lemma parse_number_show_int:
  assumes "ends_value r"
  shows "parse_number (show_int i @ r) = Some (JNum i, r)"
proof (cases "i < 0")
  case True
  then show ?thesis
    by (simp add: show_int_def parse_digits_show_nat [OF assms])
next
  case False
  obtain c cs where split: "show_nat (nat i) = c # cs"
    using show_nat_nonempty [of "nat i"] by (cases "show_nat (nat i)") auto
  then have "is_digit c" using show_nat_hd_digit [of "nat i"] by simp
  then have "c \<noteq> CHR ''-''" using minus_not_digit by auto
  moreover have "parse_digits ((c # cs) @ r) = Some (nat i, r)"
    using parse_digits_show_nat [OF assms, of "nat i"] by (simp add: split)
  ultimately show ?thesis using False by (simp add: show_int_def split)
qed


subsection \<open>Strings\<close>

lemma hex_value_hex_char: "a < 16 \<Longrightarrow> hex_value (hex_char a) = Some a"
  by (simp add: hex_value_def hex_char_def Let_def)

lemma hex_value_zero: "hex_value (CHR ''0'') = Some 0"
  by (simp add: hex_value_def)

lemma parse_chars_quote_char:
  assumes "parse_chars t = Some (s, r)"
  shows "parse_chars (quote_char c @ t) = Some (c # s, r)"
proof -
  consider (special) "c \<in> {CHR 0x22, CHR 0x5C, CHR 0x08, CHR 0x0C, CHR 0x0A, CHR 0x0D, CHR 0x09}"
    | (control) "c \<notin> {CHR 0x22, CHR 0x5C, CHR 0x08, CHR 0x0C, CHR 0x0A, CHR 0x0D, CHR 0x09}"
        "(of_char c :: nat) < 32"
    | (plain) "c \<notin> {CHR 0x22, CHR 0x5C, CHR 0x08, CHR 0x0C, CHR 0x0A, CHR 0x0D, CHR 0x09}"
        "\<not> (of_char c :: nat) < 32"
    by blast
  then show ?thesis
  proof cases
    case special
    then show ?thesis
      using assms by (auto simp add: quote_char_def unescape_def)
  next
    case control
    let ?n = "of_char c :: nat"
    have q: "quote_char c = [CHR 0x5C, CHR ''u'', CHR ''0'', CHR ''0'',
        hex_char (?n div 16), hex_char (?n mod 16)]"
      using control by (simp add: quote_char_def)
    have hi: "hex_value (hex_char (?n div 16)) = Some (?n div 16)"
      using control(2) by (intro hex_value_hex_char) simp
    have lo: "hex_value (hex_char (?n mod 16)) = Some (?n mod 16)"
      by (intro hex_value_hex_char) simp
    have again: "char_of (16 * (?n div 16) + ?n mod 16) = c" by simp
    show ?thesis
      unfolding q using assms
      by (simp add: hex_value_zero hi lo again del: div_mult_mod_eq mult_div_mod_eq)
  next
    case plain
    then show ?thesis
      using assms by (simp add: quote_char_def)
  qed
qed

lemma parse_chars_quoted:
  "parse_chars (concat (map quote_char s) @ CHR 0x22 # r) = Some (s, r)"
  by (induction s) (simp_all add: parse_chars_quote_char)


subsection \<open>Objects in property order\<close>

lemma key_le_trans: "key_le a b \<Longrightarrow> key_le b c \<Longrightarrow> key_le a c"
  by (auto simp add: key_le_def split: option.splits)

lemma key_order_prefix: "key_order (xs @ ys) \<Longrightarrow> key_order xs"
  by (simp add: key_order_def sorted_wrt_append)

lemma obj_insert_snoc: "key_order (map fst d @ [k]) \<Longrightarrow> obj_insert k v d = d @ [(k, v)]"
proof (induction d)
  case Nil
  then show ?case by simp
next
  case (Cons kv d)
  obtain k' v' where kv: "kv = (k', v')" by (cases kv)
  from Cons.prems have tail: "key_order (map fst d @ [k])" and le: "key_le k' k"
    by (simp_all add: kv key_order_def sorted_wrt_append)
  show ?case
    using le by (auto simp add: kv Cons.IH [OF tail] key_le_def split: option.splits)
qed

lemma obj_set_snoc:
  assumes "distinct (map fst (d @ [(k, v)]))" and "key_order (map fst (d @ [(k, v)]))"
  shows "obj_set k v d = d @ [(k, v)]"
proof -
  have "k \<notin> set (map fst d)" using assms(1) by simp
  moreover have "obj_insert k v d = d @ [(k, v)]"
    using assms(2) by (intro obj_insert_snoc) simp
  ultimately show ?thesis by (simp add: obj_set_def)
qed

lemma fold_obj_set_ordered:
  "distinct (map fst (acc @ kvs)) \<Longrightarrow> key_order (map fst (acc @ kvs)) \<Longrightarrow>
     fold (\<lambda>(k, v). obj_set k v) kvs acc = acc @ kvs"
proof (induction kvs arbitrary: acc)
  case Nil
  then show ?case by simp
next
  case (Cons kv kvs)
  obtain k v where kv: "kv = (k, v)" by (cases kv)
  have split: "acc @ kv # kvs = (acc @ [(k, v)]) @ kvs" by (simp add: kv)
  have d: "distinct (map fst ((acc @ [(k, v)]) @ kvs))" using Cons.prems(1) by (simp add: kv)
  have o: "key_order (map fst ((acc @ [(k, v)]) @ kvs))" using Cons.prems(2) by (simp add: kv)
  have "distinct (map fst (acc @ [(k, v)]))" using d by simp
  moreover have "key_order (map fst (acc @ [(k, v)]))"
    using o key_order_prefix [of "map fst (acc @ [(k, v)])" "map fst kvs"] by simp
  ultimately have step: "obj_set k v acc = acc @ [(k, v)]" by (rule obj_set_snoc)
  show ?case
    using Cons.IH [OF d o] by (simp add: kv step)
qed


subsection \<open>Values\<close>

lemma skip_ws_keep: "\<not> is_ws c \<Longrightarrow> skip_ws (c # cs) = c # cs"
  by (simp add: skip_ws_def)

lemma opens_value_not_ws: "opens_value c \<Longrightarrow> \<not> is_ws c"
  by (auto simp add: opens_value_def is_ws_def is_digit_def)

lemma opens_value_not_closing:
  "opens_value c \<Longrightarrow> c \<noteq> CHR '']'' \<and> c \<noteq> CHR ''}'' \<and> c \<noteq> CHR '','' \<and> c \<noteq> CHR '':''"
  by (auto simp add: opens_value_def is_digit_def)

lemma punctuation_not_ws:
  "\<not> is_ws (CHR '','')" "\<not> is_ws (CHR '']'')" "\<not> is_ws (CHR ''}'')" "\<not> is_ws (CHR '':'')"
  "\<not> is_ws (CHR 0x22)"
  by (simp_all add: is_ws_def)

lemma show_int_opens: "\<exists>c cs. show_int i = c # cs \<and> (c = CHR ''-'' \<or> is_digit c)"
proof (cases "i < 0")
  case True
  then show ?thesis by (simp add: show_int_def)
next
  case False
  obtain c cs where "show_nat (nat i) = c # cs"
    using show_nat_nonempty [of "nat i"] by (cases "show_nat (nat i)") auto
  moreover from this have "is_digit c" using show_nat_hd_digit [of "nat i"] by simp
  ultimately show ?thesis using False by (simp add: show_int_def)
qed

lemma stringify_opens: "\<exists>c cs. stringify v = c # cs \<and> opens_value c"
proof (cases v)
  case (JNum i)
  then show ?thesis using show_int_opens [of i] by (auto simp add: opens_value_def)
qed (auto simp add: opens_value_def quote_def)

lemma parse_value_null: "parse_value (Suc n) (''null'' @ r) = Some (JNull, r)"
  by (simp add: skip_ws_def is_ws_def expect_def)

lemma parse_value_bool:
  "parse_value (Suc n) ((if b then ''true'' else ''false'') @ r) = Some (JBool b, r)"
  by (simp add: skip_ws_def is_ws_def expect_def)

lemma parse_value_num:
  assumes "ends_value r"
  shows "parse_value (Suc n) (show_int i @ r) = Some (JNum i, r)"
proof -
  obtain c cs where split: "show_int i = c # cs" and c: "c = CHR ''-'' \<or> is_digit c"
    using show_int_opens by blast
  have nws: "\<not> is_ws c" using c by (auto simp add: is_ws_def is_digit_def)
  have other: "c \<noteq> CHR ''n''" "c \<noteq> CHR ''t''" "c \<noteq> CHR ''f''" "c \<noteq> CHR 0x22"
    "c \<noteq> CHR ''[''" "c \<noteq> CHR ''{''"
    using c by (auto simp add: is_digit_def)
  have "parse_number ((c # cs) @ r) = Some (JNum i, r)"
    using parse_number_show_int [OF assms, of i] by (simp only: split)
  then show ?thesis
    by (simp add: split skip_ws_keep [OF nws] other del: parse_number.simps)
qed

lemma parse_value_str: "parse_value (Suc n) (quote s @ r) = Some (JStr s, r)"
  by (simp add: quote_def skip_ws_keep punctuation_not_ws parse_chars_quoted)

lemma parse_value_empty_arr: "parse_value (Suc n) (''[]'' @ r) = Some (JArr [], r)"
  by (simp add: skip_ws_def is_ws_def)

lemma parse_value_empty_obj: "parse_value (Suc n) (''{}'' @ r) = Some (JObj [], r)"
  by (simp add: skip_ws_def is_ws_def)

lemma parse_value_arr:
  assumes "opens_value c" and "parse_elements n (c # cs) = Some (vs, r)"
  shows "parse_value (Suc n) (CHR ''['' # c # cs) = Some (JArr vs, r)"
  using assms opens_value_not_closing [OF assms(1)]
  by (simp add: skip_ws_keep [OF opens_value_not_ws [OF assms(1)]] skip_ws_keep punctuation_not_ws
      is_ws_def)

lemma parse_value_obj:
  assumes "opens_value c" and "parse_members n [] (c # cs) = Some (kvs, r)"
  shows "parse_value (Suc n) (CHR ''{'' # c # cs) = Some (JObj kvs, r)"
  using assms opens_value_not_closing [OF assms(1)]
  by (simp add: skip_ws_keep [OF opens_value_not_ws [OF assms(1)]] skip_ws_keep punctuation_not_ws
      is_ws_def)

lemma parse_elements_last:
  "parse_value n s = Some (v, CHR '']'' # r) \<Longrightarrow> parse_elements (Suc n) s = Some ([v], r)"
  by (simp add: skip_ws_keep punctuation_not_ws)

lemma parse_elements_more:
  "parse_value n s = Some (v, CHR '','' # t) \<Longrightarrow> parse_elements n t = Some (vs, r) \<Longrightarrow>
     parse_elements (Suc n) s = Some (v # vs, r)"
  by (simp add: skip_ws_keep punctuation_not_ws)

lemma parse_members_last:
  "parse_value n t = Some (v, CHR ''}'' # r) \<Longrightarrow>
     parse_members (Suc n) acc (quote k @ CHR '':'' # t) = Some (obj_set k v acc, r)"
  by (simp add: quote_def skip_ws_keep punctuation_not_ws parse_chars_quoted)

lemma parse_members_more:
  "parse_value n t = Some (v, CHR '','' # t') \<Longrightarrow>
     parse_members n (obj_set k v acc) t' = Some (kvs, r) \<Longrightarrow>
     parse_members (Suc n) acc (quote k @ CHR '':'' # t) = Some (kvs, r)"
  by (simp add: quote_def skip_ws_keep punctuation_not_ws parse_chars_quoted)


lemma commas_Cons: "commas (s # ss) = s @ (if ss = [] then [] else CHR '','' # commas ss)"
  by (cases ss) simp_all

lemma ends_value_closing: "ends_value (CHR '']'' # r)" "ends_value (CHR ''}'' # r)" "ends_value (CHR '','' # r)"
  by (simp_all add: ends_value_def)

lemma parse_elements_stringify:
  assumes vals: "\<And>x n r. x \<in> set xs \<Longrightarrow> weight x \<le> n \<Longrightarrow> ends_value r \<Longrightarrow>
      parse_value n (stringify x @ r) = Some (x, r)"
  shows "xs \<noteq> [] \<Longrightarrow> sum_list (map (\<lambda>x. Suc (weight x)) xs) \<le> m \<Longrightarrow>
      parse_elements m (commas (map stringify xs) @ CHR '']'' # r) = Some (xs, r)"
  using vals
proof (induction xs arbitrary: m)
  case Nil
  then show ?case by simp
next
  case (Cons x xs)
  from Cons.prems(2) obtain m' where m: "m = Suc m'"
    and fuel: "weight x \<le> m'" "sum_list (map (\<lambda>x. Suc (weight x)) xs) \<le> m'"
    by (cases m) simp_all
  show ?case
  proof (cases "xs = []")
    case True
    have "parse_value m' (stringify x @ CHR '']'' # r) = Some (x, CHR '']'' # r)"
      using fuel(1) by (intro Cons.prems(3)) (simp_all add: ends_value_closing)
    then show ?thesis by (simp add: True m parse_elements_last del: parse_elements.simps)
  next
    case False
    let ?t = "commas (map stringify xs) @ CHR '']'' # r"
    have "parse_value m' (stringify x @ CHR '','' # ?t) = Some (x, CHR '','' # ?t)"
      using fuel(1) by (intro Cons.prems(3)) (simp_all add: ends_value_closing)
    moreover have "parse_elements m' ?t = Some (xs, r)"
      using False fuel(2) Cons.prems(3) by (intro Cons.IH) simp_all
    ultimately have "parse_elements (Suc m') (stringify x @ CHR '','' # ?t) = Some (x # xs, r)"
      by (rule parse_elements_more)
    then show ?thesis using False by (simp add: m commas_Cons del: parse_elements.simps)
  qed
qed

lemma parse_members_stringify:
  assumes vals: "\<And>k x n r. (k, x) \<in> set kvs \<Longrightarrow> weight x \<le> n \<Longrightarrow> ends_value r \<Longrightarrow>
      parse_value n (stringify x @ r) = Some (x, r)"
  shows "kvs \<noteq> [] \<Longrightarrow> sum_list (map (\<lambda>(k, v). Suc (weight v)) kvs) \<le> m \<Longrightarrow>
      parse_members m acc
        (commas (map (\<lambda>(k, v). quote k @ CHR '':'' # stringify v) kvs) @ CHR ''}'' # r)
      = Some (fold (\<lambda>(k, v). obj_set k v) kvs acc, r)"
  using vals
proof (induction kvs arbitrary: m acc)
  case Nil
  then show ?case by simp
next
  case (Cons kv kvs)
  obtain k x where kv: "kv = (k, x)" by (cases kv)
  from Cons.prems(2) obtain m' where m: "m = Suc m'"
    and fuel: "weight x \<le> m'" "sum_list (map (\<lambda>(k, v). Suc (weight v)) kvs) \<le> m'"
    by (cases m) (simp_all add: kv)
  have elem: "parse_value n (stringify x @ r) = Some (x, r)"
    if "weight x \<le> n" "ends_value r" for n r
    using that by (intro Cons.prems(3) [of k]) (simp_all add: kv)
  show ?case
  proof (cases "kvs = []")
    case True
    have "parse_value m' (stringify x @ CHR ''}'' # r) = Some (x, CHR ''}'' # r)"
      using fuel(1) by (intro elem) (simp_all add: ends_value_closing)
    then have "parse_members (Suc m') acc (quote k @ CHR '':'' # stringify x @ CHR ''}'' # r)
        = Some (obj_set k x acc, r)"
      by (rule parse_members_last)
    then show ?thesis by (simp add: True m kv del: parse_members.simps)
  next
    case False
    let ?t = "commas (map (\<lambda>(k, v). quote k @ CHR '':'' # stringify v) kvs) @ CHR ''}'' # r"
    have rest_vals: "parse_value n (stringify y @ r) = Some (y, r)"
      if "(j, y) \<in> set kvs" "weight y \<le> n" "ends_value r" for j y n r
      using that Cons.prems(3) [of j y n r] by simp
    have first: "parse_value m' (stringify x @ CHR '','' # ?t) = Some (x, CHR '','' # ?t)"
      using fuel(1) by (intro elem) (simp_all add: ends_value_closing)
    moreover have "parse_members m' (obj_set k x acc) ?t
        = Some (fold (\<lambda>(k, v). obj_set k v) kvs (obj_set k x acc), r)"
      by (rule Cons.IH [OF False fuel(2)]) (blast intro: rest_vals)
    ultimately have "parse_members (Suc m') acc (quote k @ CHR '':'' # stringify x @ CHR '','' # ?t)
        = Some (fold (\<lambda>(k, v). obj_set k v) kvs (obj_set k x acc), r)"
      by (rule parse_members_more)
    then show ?thesis using False by (simp add: m kv commas_Cons del: parse_members.simps)
  qed
qed


lemma parse_value_stringify:
  "wf_json v \<Longrightarrow> weight v \<le> n \<Longrightarrow> ends_value r \<Longrightarrow>
     parse_value n (stringify v @ r) = Some (v, r)"
proof (induction v arbitrary: n r)
  case JNull
  then obtain n' where "n = Suc n'" by (cases n) simp_all
  then show ?case using parse_value_null [of n' r] by (simp del: parse_value.simps)
next
  case (JBool b)
  then obtain n' where "n = Suc n'" by (cases n) simp_all
  then show ?case using parse_value_bool [of n' b r] by (simp del: parse_value.simps)
next
  case (JNum i)
  then obtain n' where "n = Suc n'" by (cases n) simp_all
  then show ?case using parse_value_num [OF JNum.prems(3), of n' i] by (simp del: parse_value.simps)
next
  case (JStr s)
  then obtain n' where "n = Suc n'" by (cases n) simp_all
  then show ?case using parse_value_str [of n' s r] by (simp del: parse_value.simps)
next
  case (JArr xs)
  from JArr.prems(2) obtain n' where n: "n = Suc n'"
    and fuel: "sum_list (map (\<lambda>x. Suc (weight x)) xs) \<le> n'"
    by (cases n) simp_all
  show ?case
  proof (cases xs)
    case Nil
    then show ?thesis using parse_value_empty_arr [of n' r] by (simp add: n del: parse_value.simps)
  next
    case (Cons x ys)
    have each: "parse_value m (stringify y @ t) = Some (y, t)"
      if "y \<in> set xs" "weight y \<le> m" "ends_value t" for y m t
    proof -
      have "wf_json y" using JArr.prems(1) that(1) by (simp add: list_all_iff)
      with that show ?thesis by (intro JArr.IH)
    qed
    have elems: "parse_elements n' (commas (map stringify xs) @ CHR '']'' # r) = Some (xs, r)"
      by (rule parse_elements_stringify [OF each _ fuel]) (simp_all add: Cons)
    obtain c cs where first: "stringify x = c # cs" and c: "opens_value c"
      using stringify_opens by blast
    have shape: "commas (map stringify xs) = c # cs @ (if ys = [] then [] else CHR '','' # commas (map stringify ys))"
      by (simp add: Cons commas_Cons first)
    show ?thesis
      using parse_value_arr [OF c, of n' _ xs r] elems
      by (simp add: n shape del: parse_value.simps parse_elements.simps)
  qed
next
  case (JObj kvs)
  from JObj.prems(2) obtain n' where n: "n = Suc n'"
    and fuel: "sum_list (map (\<lambda>(k, v). Suc (weight v)) kvs) \<le> n'"
    by (cases n) simp_all
  show ?case
  proof (cases kvs)
    case Nil
    then show ?thesis using parse_value_empty_obj [of n' r] by (simp add: n del: parse_value.simps)
  next
    case (Cons kv ys)
    obtain k x where kv: "kv = (k, x)" by (cases kv)
    have each: "parse_value m (stringify y @ t) = Some (y, t)"
      if "(j, y) \<in> set kvs" "weight y \<le> m" "ends_value t" for j y m t
    proof -
      have "wf_json y" using JObj.prems(1) that(1) by (auto simp add: list_all_iff)
      moreover have "y \<in> Basic_BNFs.snds (j, y)" by simp
      ultimately show ?thesis using that by (intro JObj.IH [of "(j, y)" y])
    qed
    let ?member = "\<lambda>(k, v). quote k @ CHR '':'' # stringify v"
    have members: "parse_members n' [] (commas (map ?member kvs) @ CHR ''}'' # r)
        = Some (fold (\<lambda>(k, v). obj_set k v) kvs [], r)"
      by (rule parse_members_stringify [OF each _ fuel]) (simp_all add: Cons)
    have "fold (\<lambda>(k, v). obj_set k v) kvs [] = [] @ kvs"
      using JObj.prems(1) by (intro fold_obj_set_ordered) simp_all
    then have built: "fold (\<lambda>(k, v). obj_set k v) kvs [] = kvs" by simp
    have shape: "commas (map ?member kvs) =
        CHR 0x22 # (concat (map quote_char k) @ CHR 0x22 # CHR '':'' # stringify x)
          @ (if ys = [] then [] else CHR '','' # commas (map ?member ys))"
      by (simp add: Cons kv commas_Cons quote_def)
    have q: "opens_value (CHR 0x22)" by (simp add: opens_value_def)
    show ?thesis
      using parse_value_obj [OF q, of n' _ kvs r] members
      by (simp add: n shape built del: parse_value.simps parse_members.simps)
  qed
qed

lemma commas_length: "sum_list (map (\<lambda>s. Suc (length s)) ss) \<le> Suc (length (commas ss))"
  by (induction ss rule: commas.induct) simp_all

lemma weight_le_length: "weight v \<le> length (stringify v)"
proof (induction v)
  case (JNum i)
  then show ?case
    using show_nat_nonempty by (cases "show_nat (nat i)") (auto simp add: show_int_def Suc_le_eq)
next
  case (JStr s)
  then show ?case by (simp add: quote_def)
next
  case (JArr xs)
  have "sum_list (map (\<lambda>x. Suc (weight x)) xs) \<le> sum_list (map (\<lambda>x. Suc (length (stringify x))) xs)"
    using JArr.IH by (intro sum_list_mono) simp
  also have "\<dots> = sum_list (map (\<lambda>s. Suc (length s)) (map stringify xs))"
    by (simp add: comp_def)
  also have "\<dots> \<le> Suc (length (commas (map stringify xs)))" by (rule commas_length)
  finally show ?case by simp
next
  case (JObj kvs)
  let ?member = "\<lambda>(k, v). quote k @ CHR '':'' # stringify v"
  have "sum_list (map (\<lambda>(k, v). Suc (weight v)) kvs) \<le> sum_list (map (\<lambda>kv. Suc (length (?member kv))) kvs)"
  proof (rule sum_list_mono)
    fix kv assume "kv \<in> set kvs"
    obtain k v where kv: "kv = (k, v)" by (cases kv)
    have "v \<in> Basic_BNFs.snds kv" by (simp add: kv)
    with \<open>kv \<in> set kvs\<close> have "weight v \<le> length (stringify v)" by (rule JObj.IH)
    then show "(case kv of (k, v) \<Rightarrow> Suc (weight v)) \<le> Suc (length (?member kv))"
      by (simp add: kv)
  qed
  also have "\<dots> = sum_list (map (\<lambda>s. Suc (length s)) (map ?member kvs))"
    by (simp add: comp_def)
  also have "\<dots> \<le> Suc (length (commas (map ?member kvs)))" by (rule commas_length)
  finally show ?case by simp
qed simp_all

theorem browser_round_trips: "wf_json v \<Longrightarrow> round_trips browser v"
proof -
  assume wf: "wf_json v"
  have ne: "stringify v \<noteq> []" using stringify_opens [of v] by auto
  have "weight v \<le> 2 * length (stringify v) + 2" using weight_le_length [of v] by simp
  with wf have "parse_value (2 * length (stringify v) + 2) (stringify v @ []) = Some (v, [])"
    by (intro parse_value_stringify) (simp_all add: ends_value_def)
  then have "parse (stringify v) = Some v" by (simp add: parse_def skip_ws_def)
  with ne show ?thesis by (simp add: round_trips_def browser_def)
qed


subsection \<open>Well-formed values stay well-formed\<close>

lemma keys_obj_replace: "map fst (obj_replace k v d) = map fst d"
  by (induction d) auto

lemma set_obj_replace: "set (obj_replace k v d) \<subseteq> insert (k, v) (set d)"
  by (induction d) (auto split: if_splits)

lemma set_obj_insert: "set (obj_insert k v d) = insert (k, v) (set d)"
  by (induction d) (auto split: option.splits if_splits)

lemma distinct_obj_insert:
  "k \<notin> set (map fst d) \<Longrightarrow> distinct (map fst d) \<Longrightarrow> distinct (map fst (obj_insert k v d))"
  by (induction d) (auto simp add: set_obj_insert split: option.splits)

lemma key_order_obj_insert:
  "key_order (map fst d) \<Longrightarrow> key_order (map fst (obj_insert k v d))"
proof (induction d)
  case Nil
  then show ?case by (simp add: key_order_def)
next
  case (Cons kv d)
  obtain k' v' where kv: "kv = (k', v')" by (cases kv)
  from Cons.prems have tail: "key_order (map fst d)"
    and below: "\<forall>y \<in> set (map fst d). key_le k' y"
    by (simp_all add: kv key_order_def)
  have IH: "sorted_wrt key_le (map fst (obj_insert k v d))"
    using Cons.IH [OF tail] by (simp add: key_order_def)
  have before: "key_le k k' \<Longrightarrow> \<forall>y \<in> set (map fst d). key_le k y"
    using below key_le_trans by blast
  show ?case
    using tail below IH before
    by (auto simp add: kv key_order_def set_obj_insert key_le_def split: option.splits)
qed

lemma wf_obj_set:
  assumes "wf_json (JObj d)" and "wf_json v"
  shows "wf_json (JObj (obj_set k v d))"
proof (cases "k \<in> set (map fst d)")
  case True
  have "wf_json x" if "(j, x) \<in> set (obj_replace k v d)" for j x
  proof -
    from that set_obj_replace [of k v d] have "(j, x) = (k, v) \<or> (j, x) \<in> set d" by auto
    then show ?thesis using assms by (auto simp add: list_all_iff)
  qed
  then have "list_all (\<lambda>(k, v). wf_json v) (obj_replace k v d)"
    by (auto simp add: list_all_iff)
  then show ?thesis
    using assms(1) True by (simp add: obj_set_def keys_obj_replace)
next
  case False
  then show ?thesis
    using assms
    by (auto simp add: obj_set_def distinct_obj_insert key_order_obj_insert set_obj_insert
        list_all_iff)
qed

lemma wf_with_id: "wf_json (JObj d) \<Longrightarrow> wf_json (JObj (with_id u d))"
  using wf_obj_set [of d "JStr u" "''_id''"] by (simp add: with_id_def del: wf_json.simps(2))

lemma wf_fold_obj_set:
  "wf_json (JObj a) \<Longrightarrow> list_all (\<lambda>(k, v). wf_json v) b \<Longrightarrow>
     wf_json (JObj (fold (\<lambda>(k, v). obj_set k v) b a))"
proof (induction b arbitrary: a)
  case Nil
  then show ?case by simp
next
  case (Cons kv b)
  obtain k v where kv: "kv = (k, v)" by (cases kv)
  from Cons.prems have "wf_json (JObj (obj_set k v a))"
    by (intro wf_obj_set) (simp_all add: kv)
  then show ?case using Cons.prems(2) by (simp add: kv Cons.IH del: wf_json.simps)
qed

lemma wf_spread:
  "wf_json (JObj a) \<Longrightarrow> list_all (\<lambda>(k, v). wf_json v) b \<Longrightarrow> wf_json (JObj (spread a b))"
  by (simp add: spread_def wf_fold_obj_set del: wf_json.simps)


lemma parse_number_wf: "parse_number s = Some (v, r) \<Longrightarrow> wf_json v"
  by (cases s) (auto split: if_splits option.splits)

lemma parse_wf_all:
  "(\<forall>v r. parse_value n1 s1 = Some (v, r) \<longrightarrow> wf_json v)"
  "(\<forall>vs r. parse_elements n2 s2 = Some (vs, r) \<longrightarrow> list_all wf_json vs)"
  "(\<forall>kvs r. parse_members n3 acc s3 = Some (kvs, r) \<longrightarrow> wf_json (JObj acc) \<longrightarrow> wf_json (JObj kvs))"
proof (induction n1 s1 and n2 s2 and n3 acc s3 rule: parse_value_parse_elements_parse_members.induct)
  case (1 s)
  then show ?case by simp
next
  case (2 n s)
  show ?case
  proof (intro allI impI)
    fix v r assume p: "parse_value (Suc n) s = Some (v, r)"
    show "wf_json v"
    proof (cases "skip_ws s")
      case Nil
      with p show ?thesis by simp
    next
      case (Cons c cs)
      consider (lit) "c = CHR ''n'' \<or> c = CHR ''t'' \<or> c = CHR ''f'' \<or> c = CHR 0x22"
        | (arr) "c = CHR ''[''" | (obj) "c = CHR ''{''"
        | (num) "c \<noteq> CHR ''n''" "c \<noteq> CHR ''t''" "c \<noteq> CHR ''f''" "c \<noteq> CHR 0x22"
            "c \<noteq> CHR ''[''" "c \<noteq> CHR ''{''"
        by blast
      then show ?thesis
      proof cases
        case lit
        with p Cons show ?thesis by (auto split: option.splits)
      next
        case arr
        show ?thesis
        proof (cases "skip_ws cs")
          case Nil
          with p Cons arr show ?thesis by simp
        next
          case inner: (Cons c1 r1)
          show ?thesis
          proof (cases "c1 = CHR '']''")
            case True
            with p Cons arr inner show ?thesis by auto
          next
            case False
            have "\<forall>vs r. parse_elements n cs = Some (vs, r) \<longrightarrow> list_all wf_json vs"
              using "2.IH"(1) [OF Cons _ _ _ _ _ inner False] arr by simp
            with p Cons arr inner False show ?thesis by (auto split: option.splits)
          qed
        qed
      next
        case obj
        show ?thesis
        proof (cases "skip_ws cs")
          case Nil
          with p Cons obj show ?thesis by simp
        next
          case inner: (Cons c1 r1)
          show ?thesis
          proof (cases "c1 = CHR ''}''")
            case True
            with p Cons obj inner show ?thesis by (auto simp add: key_order_def)
          next
            case False
            have "\<forall>kvs r. parse_members n [] cs = Some (kvs, r) \<longrightarrow>
                wf_json (JObj []) \<longrightarrow> wf_json (JObj kvs)"
              using "2.IH"(2) [OF Cons _ _ _ _ _ _ inner False] obj by simp
            with p Cons obj inner False show ?thesis
              by (auto simp add: key_order_def split: option.splits)
          qed
        qed
      next
        case num
        with p Cons show ?thesis by (auto intro: parse_number_wf simp del: parse_number.simps)
      qed
    qed
  qed
next
  case (3 s)
  then show ?case by simp
next
  case (4 n s)
  show ?case
  proof (intro allI impI)
    fix vs r assume p: "parse_elements (Suc n) s = Some (vs, r)"
    then obtain v r0 where v: "parse_value n s = Some (v, r0)"
      by (auto split: option.splits)
    with "4.IH"(1) have wfv: "wf_json v" by blast
    from p v obtain c r1 where sk: "skip_ws r0 = c # r1"
      by (cases "skip_ws r0") auto
    show "list_all wf_json vs"
    proof (cases "c = CHR '']''")
      case True
      with p v sk wfv show ?thesis by auto
    next
      case False
      with p v sk have comma: "c = CHR '',''" by (auto split: if_splits)
      have "\<forall>vs r. parse_elements n r1 = Some (vs, r) \<longrightarrow> list_all wf_json vs"
        using "4.IH"(2) [OF v _ sk False comma] by simp
      with p v sk False comma wfv show ?thesis by (auto split: option.splits)
    qed
  qed
next
  case (5 acc s)
  then show ?case by simp
next
  case (6 n acc s)
  show ?case
  proof (intro allI impI)
    fix kvs r assume p: "parse_members (Suc n) acc s = Some (kvs, r)" and wfa: "wf_json (JObj acc)"
    from p obtain q cs where sk: "skip_ws s = q # cs" by (cases "skip_ws s") auto
    from p sk have q: "\<not> q \<noteq> CHR 0x22" by (auto split: if_splits)
    from p sk q obtain k r0 where k: "parse_chars cs = Some (k, r0)"
      by (auto split: option.splits)
    from p sk q k obtain colon r1 where sk1: "skip_ws r0 = colon # r1"
      by (cases "skip_ws r0") auto
    from p sk q k sk1 have colon: "\<not> colon \<noteq> CHR '':''" by (auto split: if_splits)
    from p sk q k sk1 colon obtain v r2 where v: "parse_value n r1 = Some (v, r2)"
      by (auto split: option.splits)
    have wfv: "wf_json v"
      using "6.IH"(1) [OF sk q k refl sk1 colon] v by auto
    have wfa': "wf_json (JObj (obj_set k v acc))" using wfa wfv by (rule wf_obj_set)
    from p sk q k sk1 colon v obtain c r3 where sk2: "skip_ws r2 = c # r3"
      by (cases "skip_ws r2") auto
    show "wf_json (JObj kvs)"
    proof (cases "c = CHR ''}''")
      case True
      with p sk q k sk1 colon v sk2 wfa' show ?thesis by auto
    next
      case False
      with p sk q k sk1 colon v sk2 have comma: "c = CHR '',''" by (auto split: if_splits)
      have "\<forall>kvs r. parse_members n (obj_set k v acc) r3 = Some (kvs, r) \<longrightarrow>
          wf_json (JObj (obj_set k v acc)) \<longrightarrow> wf_json (JObj kvs)"
        using "6.IH"(2) [OF sk q k refl sk1 colon v refl sk2 False comma] by simp
      with p sk q k sk1 colon v sk2 False comma wfa' show ?thesis by auto
    qed
  qed
qed

theorem browser_reads_back: "JSON_parse browser s = Some v \<Longrightarrow> round_trips browser v"
proof -
  assume "JSON_parse browser s = Some v"
  then have "parse s = Some v" by (simp add: browser_def)
  then obtain r where "parse_value (2 * length s + 2) s = Some (v, r)"
    by (auto simp add: parse_def split: option.splits if_splits)
  with parse_wf_all(1) have "wf_json v" by blast
  then show ?thesis by (rule browser_round_trips)
qed

section \<open>The model at work\<close>

text \<open>The scenario of the specification: an empty collection, one note created, read,
  updated, read, deleted, read.\<close>

lemma scenario_create:
  "fst (create browser notes_repo (One 0) (given [[(''text'', JStr ''hi'')]] fresh_world))
     = Inr [note_a]"
  by code_simp

lemma scenario_update:
  "fst (update browser notes_repo ''00000000-0000-4000-8000-000000000000''
          [(''text'', JStr ''bye'')] (holding (JArr [JObj note_a]))) = Inr 1
   \<and> fst (read browser notes_repo None
          (snd (update browser notes_repo ''00000000-0000-4000-8000-000000000000''
                  [(''text'', JStr ''bye'')] (holding (JArr [JObj note_a])))))
       = Inr (JArr [JObj [(''text'', JStr ''bye''),
                          (''_id'', JStr ''00000000-0000-4000-8000-000000000000'')]])"
  by code_simp

lemma scenario_delete:
  "fst (delete browser notes_repo ''00000000-0000-4000-8000-000000000000''
          (holding (JArr [JObj note_a]))) = Inr 1
   \<and> fst (read browser notes_repo None
          (snd (delete browser notes_repo ''00000000-0000-4000-8000-000000000000''
                  (holding (JArr [JObj note_a]))))) = Inr (JArr [])"
  by code_simp

text \<open>A stored \<open>null\<close> makes the property read of \<open>update\<close> throw; a stored value that
  is not an array has no \<open>findIndex\<close>; a stored string is spread by \<open>create\<close> into its
  characters.\<close>

lemma null_item_throws:
  "fst (update browser notes_repo ''b'' [] (holding (JArr [JNull, JObj note_b]))) = Inl TypeError"
  by code_simp

lemma not_an_array_throws:
  "fst (update browser notes_repo ''b'' [] (holding (JObj note_b))) = Inl TypeError
   \<and> fst (create browser notes_repo (Many []) (holding (JObj note_b))) = Inl TypeError"
  by code_simp

lemma stored_string_is_spread:
  "fst (read browser notes_repo None
          (snd (create browser notes_repo (Many []) (holding (JStr ''ab'')))))
     = Inr (JArr [JStr ''a'', JStr ''b''])"
  by code_simp

text \<open>One object given twice to \<open>create\<close> is assigned one identifier, and both
  entries of the result are that object.\<close>

lemma same_object_given_twice:
  "fst (create browser notes_repo (Many [0, 0]) (given [[(''text'', JStr ''hi'')]] fresh_world))
     = Inr [note_a, note_a]
   \<and> uuid_calls (snd (create browser notes_repo (Many [0, 0])
          (given [[(''text'', JStr ''hi'')]] fresh_world))) = 1"
  by code_simp

text \<open>A new property whose key is an array index goes before the other keys.\<close>

lemma index_key_goes_first:
  "obj_set ''1'' JNull [(''2'', JBool True), (''a'', JBool False)]
     = [(''1'', JNull), (''2'', JBool True), (''a'', JBool False)]"
  by (simp add: obj_set_def array_index_def is_digit_def digits_value_def)

section \<open>Properties of the operations\<close>

text \<open>
  In the statements below, \<open>fst (read h this None w) = Inr (JArr xs)\<close> says that the
  collection holds the items \<open>xs\<close> in the world \<open>w\<close>: \<open>read()\<close> returns them.
  \<open>JNull \<notin> set xs\<close> says that no stored item is \<open>null\<close>, on which a property read would
  throw.  \<open>round_trips h v\<close> says that the host reads back the text it prints for \<open>v\<close>;
  the example host does so for every well-formed value and for every value it has read
  (\<open>browser_round_trips\<close>, \<open>browser_reads_back\<close>).  The storage area is taken to accept
  every write (no quota).
\<close>

subsection \<open>Round trip of \<open>create\<close> and \<open>read\<close>\<close>



subsection \<open>\<open>update\<close> with an unknown identifier\<close>

text \<open>
  C2.  \<open>update(id, partial)\<close> with the empty string for \<open>id\<close>, or with an \<open>id\<close> that no
  stored item has, returns 0 and leaves the world as it was: the stored text is the
  same and no \<open>setItem\<close> call is made.
\<close>

theorem update_unknown_id:
  assumes "ident = [] \<or>
           (fst (read h this None w) = Inr (JArr xs) \<and> JNull \<notin> set xs
            \<and> (\<forall>x \<in> set xs. \<not> has_id ident x))"
  shows "update h this ident upd w = (Inr 0, w)"
proof (cases "ident = []")
  case True
  then show ?thesis by (simp add: update_def)
next
  case False
  with assms have rd: "fst (read h this None w) = Inr (JArr xs)"
    and nn: "JNull \<notin> set xs" and none: "\<forall>x \<in> set xs. \<not> has_id ident x"
    by auto
  show ?thesis
    by (simp add: update_on_array [OF rd False] findIndex_id_is_none [OF nn none])
qed

theorem update_unknown_id_witness:
  "update browser notes_repo ''zz'' [(''text'', JStr ''bye'')] (holding (JArr [JObj note_a, JObj note_b])) = (Inr 0, (holding (JArr [JObj note_a, JObj note_b])))
   \<and> update browser notes_repo [] [(''text'', JStr ''bye'')] (holding (JArr [JObj note_a, JObj note_b])) = (Inr 0, (holding (JArr [JObj note_a, JObj note_b])))"
proof -
  have h: "''zz'' = [] \<or>
      (fst (read browser notes_repo None (holding (JArr [JObj note_a, JObj note_b]))) = Inr (JArr [JObj note_a, JObj note_b])
       \<and> JNull \<notin> set [JObj note_a, JObj note_b]
       \<and> (\<forall>x \<in> set [JObj note_a, JObj note_b]. \<not> has_id ''zz'' x))"
    by code_simp
  have e: "([]::string) = [] \<or>
      (fst (read browser notes_repo None (holding (JArr [JObj note_a, JObj note_b]))) = Inr (JArr [])
       \<and> JNull \<notin> set [] \<and> (\<forall>x \<in> set []. \<not> has_id [] x))"
    by simp
  show ?thesis
    using update_unknown_id [OF h] update_unknown_id [OF e] by simp
qed

subsection \<open>An identifier given to \<open>create\<close>\<close>

text \<open>
  C3, as the code has it.  Let \<open>d\<close> be the document in an object given to \<open>create\<close>.
  When the \<open>_id\<close> of \<open>d\<close> is a non-empty string, \<open>d\<close> is returned and stored
  unchanged, at its place among the created documents, and the caller's object is
  untouched.  When the \<open>_id\<close> of \<open>d\<close> is the empty string, the created and stored
  document is \<open>d\<close> with its \<open>_id\<close> replaced by one of the identifiers drawn in the
  call, every other field as it was.  No identifier is drawn for an object whose
  \<open>_id\<close> is truthy: with a generator that returns non-empty identifiers, the number
  drawn is the number of given objects whose \<open>_id\<close> is falsy.
\<close>

theorem create_given_id:
  assumes "fst (read h this None w) = Inr (JArr xs)"
    and "i < length (refs_of nd)"
    and "d = objects w (refs_of nd ! i)"
  shows "\<exists>created w'.
           create h this nd w = (Inr created, w')
         \<and> length created = length (refs_of nd)
         \<and> localStorage w' (collection this) =
             Some (JSON_stringify h (JArr (xs @ map JObj created)))
         \<and> (\<forall>s. map_of d ''_id'' = Some (JStr s) \<and> s \<noteq> [] \<longrightarrow>
               created ! i = d \<and> objects w' (refs_of nd ! i) = d)
         \<and> (map_of d ''_id'' = Some (JStr []) \<longrightarrow>
               (\<exists>m. uuid_calls w \<le> m \<and> m < uuid_calls w'
                  \<and> created ! i = obj_set ''_id'' (JStr (uuidv4 h m)) d
                  \<and> map_of (created ! i) ''_id'' = Some (JStr (uuidv4 h m))
                  \<and> (\<forall>k. k \<noteq> ''_id'' \<longrightarrow> map_of (created ! i) k = map_of d k)))
         \<and> ((\<forall>n. uuidv4 h n \<noteq> []) \<longrightarrow>
               uuid_calls w' =
                 uuid_calls w
                 + card {r \<in> set (refs_of nd). \<not> truthy (map_of (objects w r) ''_id'')})"
proof -
  let ?rs = "refs_of nd"
  let ?w2 = "assign_ids h ?rs w"
  let ?created = "map (objects ?w2) ?rs"
  let ?w' = "setItem (collection this)
               (JSON_stringify h (JArr (xs @ map (\<lambda>r. JObj (objects ?w2 r)) ?rs))) ?w2"
  have r: "?rs ! i \<in> set ?rs" using assms(2) by simp
  note facts = assign_ids_objects [of w h ?rs "?rs ! i"]
  have calls: "uuid_calls ?w' = uuid_calls ?w2" by (simp add: setItem_def)
  have at_i: "?created ! i = objects ?w2 (?rs ! i)" using assms(2) by simp
  have "create h this nd w = (Inr ?created, ?w')" by (rule create_on_array [OF assms(1)])
  moreover have "length ?created = length ?rs" by simp
  moreover have "localStorage ?w' (collection this) =
      Some (JSON_stringify h (JArr (xs @ map JObj ?created)))"
    by (simp add: setItem_def comp_def)
  moreover have "\<forall>s. map_of d ''_id'' = Some (JStr s) \<and> s \<noteq> [] \<longrightarrow>
      ?created ! i = d \<and> objects ?w' (?rs ! i) = d"
    using facts at_i by (auto simp add: assms(3) setItem_def)
  moreover have "map_of d ''_id'' = Some (JStr []) \<longrightarrow>
      (\<exists>m. uuid_calls w \<le> m \<and> m < uuid_calls ?w'
         \<and> ?created ! i = obj_set ''_id'' (JStr (uuidv4 h m)) d
         \<and> map_of (?created ! i) ''_id'' = Some (JStr (uuidv4 h m))
         \<and> (\<forall>k. k \<noteq> ''_id'' \<longrightarrow> map_of (?created ! i) k = map_of d k))"
  proof
    assume empty: "map_of d ''_id'' = Some (JStr [])"
    then have "\<not> truthy (map_of (objects w (?rs ! i)) ''_id'')" by (simp add: assms(3))
    with facts r obtain m where m: "uuid_calls w \<le> m" "m < uuid_calls ?w2"
      and obj: "objects ?w2 (?rs ! i) = obj_set ''_id'' (JStr (uuidv4 h m)) d"
      unfolding assms(3) by blast
    have "?created ! i = obj_set ''_id'' (JStr (uuidv4 h m)) d" by (simp only: at_i obj)
    then show "\<exists>m. uuid_calls w \<le> m \<and> m < uuid_calls ?w'
         \<and> ?created ! i = obj_set ''_id'' (JStr (uuidv4 h m)) d
         \<and> map_of (?created ! i) ''_id'' = Some (JStr (uuidv4 h m))
         \<and> (\<forall>k. k \<noteq> ''_id'' \<longrightarrow> map_of (?created ! i) k = map_of d k)"
      using m calls by (intro exI [of _ m]) (simp add: map_of_obj_set)
  qed
  moreover have "(\<forall>n. uuidv4 h n \<noteq> []) \<longrightarrow>
      uuid_calls ?w' =
        uuid_calls w + card {r \<in> set ?rs. \<not> truthy (map_of (objects w r) ''_id'')}"
    using assign_ids_count [of h ?rs w] calls by simp
  ultimately show ?thesis by blast
qed

theorem create_given_id_witness:
  "\<exists>m. fst (create browser notes_repo (Many [0, 1])
          (given [note_b, [(''_id'', JStr []), (''text'', JStr ''hi'')]] (holding (JArr []))))
     = Inr [note_b, [(''_id'', JStr (uuid_of m)), (''text'', JStr ''hi'')]]"
proof -
  let ?e = "[(''_id'', JStr []), (''text'', JStr ''hi'')]"
  let ?w = "given [note_b, ?e] (holding (JArr []))"
  have h1: "fst (read browser notes_repo None ?w) = Inr (JArr [])" by code_simp
  have i0: "0 < length (refs_of (Many [0, 1]))" by simp
  have i1: "1 < length (refs_of (Many [0, 1]))" by simp
  have d0: "note_b = objects ?w (refs_of (Many [0, 1]) ! 0)" by code_simp
  have d1: "?e = objects ?w (refs_of (Many [0, 1]) ! 1)" by code_simp
  have id0: "map_of note_b ''_id'' = Some (JStr ''b'') \<and> ''b'' \<noteq> []" by code_simp
  have id1: "map_of ?e ''_id'' = Some (JStr [])" by simp
  have set1: "obj_set ''_id'' (JStr u) ?e = [(''_id'', JStr u), (''text'', JStr ''hi'')]" for u
    by (simp add: obj_set_def)
  have u: "uuidv4 browser = uuid_of" by (simp add: browser_def)
  from create_given_id [OF h1 i0 d0] id0 obtain created w'
    where c: "create browser notes_repo (Many [0, 1]) ?w = (Inr created, w')"
      and l: "length created = length (refs_of (Many [0, 1]))"
      and k: "created ! 0 = note_b"
    by blast
  from create_given_id [OF h1 i1 d1] id1 obtain created2 w2 m
    where c2: "create browser notes_repo (Many [0, 1]) ?w = (Inr created2, w2)"
      and k2: "created2 ! 1 = obj_set ''_id'' (JStr (uuidv4 browser m)) ?e"
    by blast
  from c c2 have same: "created2 = created" by simp
  from l obtain x y where xy: "created = [x, y]"
    by (cases created; cases "tl created") auto
  have "created = [note_b, [(''_id'', JStr (uuid_of m)), (''text'', JStr ''hi'')]]"
    using k k2 unfolding same set1 u xy by simp
  then show ?thesis using c by (intro exI [of _ m]) simp
qed

text \<open>
  The claim as stated, for any string value, fails on the empty string: \<open>create\<close> on
  an empty collection, given a document whose \<open>_id\<close> is the empty string, draws an
  identifier and stores the document under it.
\<close>

theorem create_empty_id_counterexample:
  "fst (create browser notes_repo (One 0)
          (given [[(''_id'', JStr []), (''text'', JStr ''hi'')]] fresh_world))
     = Inr [[(''_id'', JStr ''00000000-0000-4000-8000-000000000000''), (''text'', JStr ''hi'')]]
   \<and> uuid_calls (snd (create browser notes_repo (One 0)
        (given [[(''_id'', JStr []), (''text'', JStr ''hi'')]] fresh_world))) = 1
   \<and> fst (read browser notes_repo None (snd (create browser notes_repo (One 0)
        (given [[(''_id'', JStr []), (''text'', JStr ''hi'')]] fresh_world))))
     = Inr (JArr [JObj [(''_id'', JStr ''00000000-0000-4000-8000-000000000000''),
                        (''text'', JStr ''hi'')]])"
  by code_simp

subsection \<open>The result of \<open>delete\<close>\<close>

text \<open>
  C4, as the code has it.  \<open>delete(id)\<close> returns 1 when \<open>id\<close> is not empty and some
  stored item has it, and 0 otherwise, leaving the world as it was.  When it returns 1,
  a \<open>read()\<close> afterwards returns the items without every one that had the \<open>id\<close>, which
  are as many fewer as there were items with the \<open>id\<close> (one, when the \<open>id\<close> is unique).
  A second \<open>delete\<close> with the same \<open>id\<close> returns 0.
\<close>

theorem delete_result:
  assumes "fst (read h this None w) = Inr (JArr xs)" and "JNull \<notin> set xs"
    and "round_trips h (JArr (filter (\<lambda>x. \<not> has_id ident x) xs))"
    and "delete h this ident w = (r, w')"
  shows "r = Inr (if ident \<noteq> [] \<and> (\<exists>x \<in> set xs. has_id ident x) then 1 else 0)
       \<and> (r = Inr 0 \<longrightarrow> w' = w)
       \<and> (r = Inr 1 \<longrightarrow>
            fst (read h this None w') = Inr (JArr (filter (\<lambda>x. \<not> has_id ident x) xs))
            \<and> \<not> (\<exists>x \<in> set (filter (\<lambda>x. \<not> has_id ident x) xs). has_id ident x)
            \<and> length (filter (\<lambda>x. \<not> has_id ident x) xs) =
                length xs - length (filter (has_id ident) xs))
       \<and> fst (delete h this ident w') = Inr 0"
proof (cases "ident \<noteq> [] \<and> (\<exists>x \<in> set xs. has_id ident x)")
  case False
  have "delete h this ident w = (Inr 0, w)"
  proof (cases "ident = []")
    case True
    then show ?thesis by (simp add: delete_def)
  next
    case ne: False
    with False show ?thesis by (simp add: delete_on_array [OF assms(1) ne assms(2)])
  qed
  with assms(4) have "r = Inr 0" and "w' = w" by simp_all
  with False \<open>delete h this ident w = (Inr 0, w)\<close> show ?thesis by auto
next
  case True
  then have ne: "ident \<noteq> []" and ex: "\<exists>x \<in> set xs. has_id ident x" by simp_all
  let ?rest = "filter (\<lambda>x. \<not> has_id ident x) xs"
  have "delete h this ident w =
      (Inr 1, setItem (collection this) (JSON_stringify h (JArr ?rest)) w)"
    using ex by (simp add: delete_on_array [OF assms(1) ne assms(2)])
  with assms(4) have r: "r = Inr 1"
    and w': "w' = setItem (collection this) (JSON_stringify h (JArr ?rest)) w"
    by simp_all
  have rd: "fst (read h this None w') = Inr (JArr ?rest)"
    by (simp add: w' read_after_setItem [OF assms(3)])
  have nn: "JNull \<notin> set ?rest" using assms(2) by simp
  have again: "delete h this ident w' = (Inr 0, w')"
    by (simp add: delete_on_array [OF rd ne nn])
  have len: "length ?rest = length xs - length (filter (has_id ident) xs)"
    using sum_length_filter_compl [of "has_id ident" xs] by simp
  show ?thesis using True r rd again len by simp
qed

theorem delete_result_witness:
  "fst (delete browser notes_repo ''b'' (holding (JArr [JObj note_a, JObj note_b]))) = Inr 1
   \<and> fst (read browser notes_repo None (snd (delete browser notes_repo ''b'' (holding (JArr [JObj note_a, JObj note_b])))))
       = Inr (JArr [JObj note_a])
   \<and> fst (delete browser notes_repo ''b'' (snd (delete browser notes_repo ''b'' (holding (JArr [JObj note_a, JObj note_b]))))) = Inr 0"
proof -
  have h1: "fst (read browser notes_repo None (holding (JArr [JObj note_a, JObj note_b]))) = Inr (JArr [JObj note_a, JObj note_b])"
    by code_simp
  have h2: "JNull \<notin> set [JObj note_a, JObj note_b]" by simp
  have f: "filter (\<lambda>x. \<not> has_id ''b'' x) [JObj note_a, JObj note_b] = [JObj note_a]"
    by code_simp
  have h3: "round_trips browser (JArr (filter (\<lambda>x. \<not> has_id ''b'' x) [JObj note_a, JObj note_b]))"
    unfolding f by code_simp
  have h4: "delete browser notes_repo ''b'' (holding (JArr [JObj note_a, JObj note_b])) =
      (fst (delete browser notes_repo ''b'' (holding (JArr [JObj note_a, JObj note_b]))), snd (delete browser notes_repo ''b'' (holding (JArr [JObj note_a, JObj note_b]))))"
    by simp
  have c: "''b'' \<noteq> [] \<and> (\<exists>x \<in> set [JObj note_a, JObj note_b]. has_id ''b'' x)"
    by code_simp
  note t = delete_result [OF h1 h2 h3 h4]
  have r: "fst (delete browser notes_repo ''b'' (holding (JArr [JObj note_a, JObj note_b]))) = Inr 1"
    using t [THEN conjunct1] unfolding if_P [OF c] .
  have a: "fst (read browser notes_repo None
      (snd (delete browser notes_repo ''b'' (holding (JArr [JObj note_a, JObj note_b])))))
      = Inr (JArr [JObj note_a])"
    using t [THEN conjunct2, THEN conjunct2, THEN conjunct1] r unfolding f by blast
  have d: "fst (delete browser notes_repo ''b''
      (snd (delete browser notes_repo ''b'' (holding (JArr [JObj note_a, JObj note_b]))))) = Inr 0"
    using t [THEN conjunct2, THEN conjunct2, THEN conjunct2] .
  show ?thesis using r a d by blast
qed

text \<open>
  The claim as stated, that the result counts the documents deleted, fails when two
  stored documents share an identifier, which \<open>create\<close> allows: \<open>delete\<close> removes both and
  returns 1.
\<close>

theorem delete_twins_counterexample:
  "fst (read browser notes_repo None twins_world) = Inr (JArr [JObj twin, JObj twin])
   \<and> fst (delete browser notes_repo ''x'' twins_world) = Inr 1
   \<and> fst (read browser notes_repo None (snd (delete browser notes_repo ''x'' twins_world)))
       = Inr (JArr [])"
  by code_simp

subsection \<open>The merge of \<open>update\<close>\<close>

text \<open>
  C5, as the code has it.  Let \<open>id\<close> be a non-empty identifier and \<open>d\<close> the first stored
  document that has it.  \<open>update(id, partial)\<close> returns 1, and a \<open>read()\<close> afterwards
  returns the items with \<open>d\<close> replaced, in place, by a document \<open>d'\<close> whose \<open>_id\<close> is
  still \<open>id\<close>, whose other fields present in \<open>partial\<close> have the values of \<open>partial\<close>,
  and whose fields absent from \<open>partial\<close> are those of \<open>d\<close>.  Every other item is
  unchanged.
\<close>

theorem update_merges:
  assumes "fst (read h this None w) = Inr (JArr xs)" and "JNull \<notin> set xs"
    and "ident \<noteq> []"
    and "i < length xs" and "xs ! i = JObj d" and "map_of d ''_id'' = Some (JStr ident)"
    and "\<forall>j < i. \<not> has_id ident (xs ! j)"
    and "distinct (map fst partial)"
    and "d' = spread d (filter (\<lambda>(k, v). k \<noteq> ''_id'') partial)"
    and "round_trips h (JArr (xs[i := JObj d']))"
  shows "fst (update h this ident partial w) = Inr 1
       \<and> fst (read h this None (snd (update h this ident partial w))) =
           Inr (JArr (xs[i := JObj d']))
       \<and> map_of d' ''_id'' = Some (JStr ident)
       \<and> (\<forall>k v. k \<noteq> ''_id'' \<longrightarrow> map_of partial k = Some v \<longrightarrow> map_of d' k = Some v)
       \<and> (\<forall>k. map_of partial k = None \<longrightarrow> map_of d' k = map_of d k)"
proof -
  let ?rest = "filter (\<lambda>(k, v). k \<noteq> ''_id'') partial"
  have idx: "findIndex (id_is ident) xs = Inr (Some i)"
  proof (rule findIndex_first)
    show "i < length xs" by (rule assms(4))
    show "id_is ident (xs ! i) = Inr True"
      by (simp add: assms(5,6) id_is_def)
    show "id_is ident (xs ! j) = Inr False" if "j < i" for j
    proof -
      have "xs ! j \<in> set xs" using that assms(4) by simp
      then have "xs ! j \<noteq> JNull" using assms(2) by auto
      then show ?thesis using assms(7) that by (simp add: id_is_has_id)
    qed
  qed
  let ?w = "if verbose this
            then console_warn (''Trying to update item _id: '' @ ident @ '' with'')
                   (map_of partial ''_id'') w
            else w"
  have u: "update h this ident partial w =
      (Inr 1, setItem (collection this) (JSON_stringify h (JArr (xs[i := JObj d']))) ?w)"
    by (simp add: update_on_array [OF assms(1,3)] idx assms(5,9))
  have rest_map: "map_of ?rest = (map_of partial)(''_id'' := None)"
    by (induction partial) (auto simp add: fun_eq_iff)
  have "distinct (map fst ?rest)" using assms(8) by (simp add: distinct_map_filter)
  then have "map_of (rev ?rest) = map_of ?rest" by (rule map_of_rev_distinct)
  then have d'_map: "map_of d' = map_of d ++ (map_of partial)(''_id'' := None)"
    by (simp add: assms(9) map_of_spread rest_map)
  have "fst (update h this ident partial w) = Inr 1" by (simp add: u)
  moreover have "fst (read h this None (snd (update h this ident partial w))) =
      Inr (JArr (xs[i := JObj d']))"
    by (simp add: u read_after_setItem [OF assms(10)])
  moreover have "map_of d' ''_id'' = Some (JStr ident)"
    by (simp add: d'_map map_add_def assms(6))
  moreover have "\<forall>k v. k \<noteq> ''_id'' \<longrightarrow> map_of partial k = Some v \<longrightarrow> map_of d' k = Some v"
    by (simp add: d'_map map_add_def)
  moreover have "\<forall>k. map_of partial k = None \<longrightarrow> map_of d' k = map_of d k"
    by (simp add: d'_map map_add_def)
  ultimately show ?thesis by blast
qed

theorem update_merges_witness:
  "fst (update browser notes_repo ''b'' [(''_id'', JStr ''zz''), (''text'', JStr ''bye'')] (holding (JArr [JObj note_a, JObj note_b])))
     = Inr 1
   \<and> fst (read browser notes_repo None
        (snd (update browser notes_repo ''b''
                [(''_id'', JStr ''zz''), (''text'', JStr ''bye'')] (holding (JArr [JObj note_a, JObj note_b])))))
     = Inr (JArr [JObj note_a, JObj [(''_id'', JStr ''b''), (''text'', JStr ''bye'')]])"
proof -
  let ?xs = "[JObj note_a, JObj note_b]"
  let ?partial = "[(''_id'', JStr ''zz''), (''text'', JStr ''bye'')]"
  let ?d' = "[(''_id'', JStr ''b''), (''text'', JStr ''bye'')]"
  have h1: "fst (read browser notes_repo None (holding (JArr [JObj note_a, JObj note_b]))) = Inr (JArr ?xs)" by code_simp
  have h2: "JNull \<notin> set ?xs" by simp
  have h3: "''b'' \<noteq> []" by simp
  have h4: "1 < length ?xs" by simp
  have h5: "?xs ! 1 = JObj note_b" by simp
  have h6: "map_of note_b ''_id'' = Some (JStr ''b'')" by code_simp
  have h7: "\<forall>j < 1. \<not> has_id ''b'' (?xs ! j)" by (simp add: note_a_def)
  have h8: "distinct (map fst ?partial)" by simp
  have h9: "?d' = spread note_b (filter (\<lambda>(k, v). k \<noteq> ''_id'') ?partial)" by code_simp
  have h10: "round_trips browser (JArr (?xs[1 := JObj ?d']))" by code_simp
  show ?thesis
    using update_merges [OF h1 h2 h3 h4 h5 h6 h7 h8 h9 h10] by simp
qed

text \<open>
  The claim as stated, for every stored document with the identifier, fails when two
  stored documents share it: \<open>update\<close> merges into the first and leaves the second as it
  was.
\<close>

theorem update_twins_counterexample:
  "fst (read browser notes_repo None twins_world) = Inr (JArr [JObj twin, JObj twin])
   \<and> fst (update browser notes_repo ''x'' [(''_id'', JStr ''y''), (''done'', JBool True)]
            twins_world) = Inr 1
   \<and> fst (read browser notes_repo None
        (snd (update browser notes_repo ''x'' [(''_id'', JStr ''y''), (''done'', JBool True)]
                twins_world)))
     = Inr (JArr [JObj [(''_id'', JStr ''x''), (''done'', JBool True)],
                  JObj [(''_id'', JStr ''x''), (''done'', JBool False)]])"
  by code_simp

subsection \<open>\<open>read\<close> with a filter\<close>

text \<open>
  C6.  \<open>read(filter)\<close> returns, in stored order, exactly the stored items at which every
  key of the filter has a value strictly equal to the filter's string for that key, and
  leaves the world as it was.
\<close>

theorem read_with_filter:
  assumes "fst (read h this None w) = Inr (JArr xs)" and "JNull \<notin> set xs"
  shows "read h this (Some q) w = (Inr (JArr (filter (matches q) xs)), w)"
proof -
  have "JSON_parse h (stored_text this w) = Some (JArr xs)"
    using assms(1) by (simp add: read_all_iff)
  moreover have "filterE (\<lambda>item. every item q) xs = Inr (filter (matches q) xs)"
    by (rule filterE_total) (simp add: every_matches not_null_member [OF assms(2)])
  ultimately show ?thesis by (simp add: read_def)
qed

theorem read_with_filter_witness:
  "read browser notes_repo (Some [(''text'', ''yo'')]) (holding (JArr [JObj note_a, JObj note_b])) = (Inr (JArr [JObj note_b]), (holding (JArr [JObj note_a, JObj note_b])))"
proof -
  have h1: "fst (read browser notes_repo None (holding (JArr [JObj note_a, JObj note_b]))) = Inr (JArr [JObj note_a, JObj note_b])"
    by code_simp
  have h2: "JNull \<notin> set [JObj note_a, JObj note_b]" by simp
  have f: "filter (matches [(''text'', ''yo'')]) [JObj note_a, JObj note_b] = [JObj note_b]"
    by code_simp
  show ?thesis
    using read_with_filter [OF h1 h2, of "[(''text'', ''yo'')]", unfolded f] by simp
qed

subsection \<open>\<open>updateMany\<close>\<close>

lemma findIndex_Some_first:
  "findIndex p xs = Inr (Some i) \<Longrightarrow>
     i < length xs \<and> p (xs ! i) = Inr True \<and> (\<forall>j < i. p (xs ! j) = Inr False)"
proof (induction xs arbitrary: i)
  case Nil
  then show ?case by simp
next
  case (Cons x xs)
  show ?case
  proof (cases "p x")
    case (Inl e)
    with Cons.prems show ?thesis by simp
  next
    case (Inr b)
    show ?thesis
    proof (cases b)
      case True
      with Cons.prems Inr show ?thesis by simp
    next
      case False
      with Cons.prems Inr obtain k where k: "findIndex p xs = Inr (Some k)" and i: "i = Suc k"
        by (auto split: sum.splits option.splits)
      from Cons.IH [OF k] have "k < length xs" "p (xs ! k) = Inr True"
        "\<forall>j < k. p (xs ! j) = Inr False"
        by simp_all
      with Inr False i show ?thesis by (auto simp add: less_Suc_eq_0_disj)
    qed
  qed
qed

lemma id_is_True:
  "id_is ident item = Inr True \<Longrightarrow> \<exists>d0. item = JObj d0 \<and> map_of d0 ''_id'' = Some (JStr ident)"
  by (cases item) (auto simp add: id_is_def split: option.splits if_splits)

lemma id_is_False: "id_is ident item = Inr False \<Longrightarrow> \<not> has_id ident item"
  by (cases item) (auto simp add: id_is_def)

text \<open>What a result of \<open>update\<close> says: 0, and the world is as it was; or 1, and the first
  stored document with the identifier was merged with the partial document and the
  collection written, in one \<open>setItem\<close> call.\<close>

lemma update_result:
  assumes "update h this ident d w0 = (Inr n, w1)"
  shows "(n = 0 \<and> w1 = w0)
       \<or> (n = 1 \<and> ident \<noteq> []
          \<and> (\<exists>xs i d0.
                fst (read h this None w0) = Inr (JArr xs)
              \<and> i < length xs \<and> xs ! i = JObj d0
              \<and> map_of d0 ''_id'' = Some (JStr ident)
              \<and> (\<forall>j < i. \<not> has_id ident (xs ! j))
              \<and> localStorage w1 (collection this) =
                  Some (JSON_stringify h
                    (JArr (xs[i := JObj (spread d0 (filter (\<lambda>(k, v). k \<noteq> ''_id'') d))])))
              \<and> setItem_calls w1 =
                  setItem_calls w0 @
                    [(collection this,
                      JSON_stringify h
                        (JArr (xs[i := JObj (spread d0 (filter (\<lambda>(k, v). k \<noteq> ''_id'') d))])))]))"
proof (cases "ident = []")
  case True
  with assms show ?thesis by (simp add: update_def)
next
  case ne: False
  obtain r where rd: "read h this None w0 = (r, w0)"
    using read_world [of h this None w0] by (cases "read h this None w0") simp
  from assms ne rd obtain xs where r: "r = Inr (JArr xs)"
    by (cases r; cases "projr r") (auto simp add: update_def)
  then have holds: "fst (read h this None w0) = Inr (JArr xs)" by (simp add: rd)
  note u = update_on_array [OF holds ne, of d]
  show ?thesis
  proof (cases "findIndex (id_is ident) xs")
    case (Inl e)
    with assms u show ?thesis by simp
  next
    case (Inr found)
    show ?thesis
    proof (cases found)
      case None
      with assms u Inr show ?thesis by simp
    next
      case (Some i)
      from findIndex_Some_first [of "id_is ident" xs i] Inr Some
      have i: "i < length xs" and hit: "id_is ident (xs ! i) = Inr True"
        and before: "\<forall>j < i. id_is ident (xs ! j) = Inr False"
        by simp_all
      from id_is_True [OF hit] obtain d0 where d0: "xs ! i = JObj d0"
        and ident: "map_of d0 ''_id'' = Some (JStr ident)"
        by blast
      have first: "\<forall>j < i. \<not> has_id ident (xs ! j)" using before id_is_False by blast
      let ?t = "JSON_stringify h
        (JArr (xs[i := JObj (spread d0 (filter (\<lambda>(k, v). k \<noteq> ''_id'') d))]))"
      from assms u Inr Some d0 have n: "n = 1"
        and w1: "w1 = setItem (collection this) ?t
          (if verbose this
           then console_warn (''Trying to update item _id: '' @ ident @ '' with'')
                  (map_of d ''_id'') w0
           else w0)"
        by simp_all
      have "localStorage w1 (collection this) = Some ?t"
        by (simp add: w1 setItem_def)
      moreover have "setItem_calls w1 = setItem_calls w0 @ [(collection this, ?t)]"
        by (simp add: w1 setItem_def console_warn_def)
      ultimately show ?thesis using n ne holds i d0 ident first by blast
    qed
  qed
qed

lemma update_each_writes:
  "update_each h this docs w = (Inr ns, w') \<Longrightarrow>
     length (setItem_calls w') = length (setItem_calls w) + sum_list ns"
proof (induction docs arbitrary: ns w w')
  case Nil
  then show ?case by auto
next
  case (Cons e docs)
  obtain ident d where e: "e = (ident, d)" by (cases e)
  obtain r w1 where u: "update h this ident d w = (r, w1)" by (cases "update h this ident d w")
  from Cons.prems obtain n where r: "r = Inr n"
    by (cases r) (simp_all add: e u)
  obtain r2 w2 where rest: "update_each h this docs w1 = (r2, w2)"
    by (cases "update_each h this docs w1")
  from Cons.prems obtain ms where r2: "r2 = Inr ms" and ns: "ns = n # ms" and w': "w' = w2"
    by (cases r2) (auto simp add: e u r rest)
  have "length (setItem_calls w2) = length (setItem_calls w1) + sum_list ms"
    using rest r2 Cons.IH [of w1 ms w2] by simp
  moreover have "length (setItem_calls w1) = length (setItem_calls w) + n"
    using update_result [of h this ident d w n w1] u r by auto
  ultimately show ?case by (simp add: ns w')
qed

text \<open>
  C7, as the code has it.  \<open>updateMany\<close> calls \<open>update\<close> once per entry, in input order,
  each call in the world the call before left, and returns the sum of the results of the
  calls; an exception in a call ends it with that exception.  Every call returns 0 or 1:
  1 when it merged the entry into the first stored document with the entry's identifier
  and wrote the collection, in one \<open>setItem\<close> call, and 0 when it left the world as it
  was.  So the sum is the number of entries that updated a document, which is the number
  of writes made; an identifier that occurs in several entries counts once for each.  On
  the empty sequence the result is 0 and the world is as it was.
\<close>

theorem updateMany_sums_updates:
  "updateMany h this docs w =
     (case update_each h this docs w of
        (Inl e, w') \<Rightarrow> (Inl e, w')
      | (Inr ns, w') \<Rightarrow> (Inr (sum_list ns), w'))
   \<and> (\<forall>ns w'. update_each h this docs w = (Inr ns, w') \<longrightarrow>
          length ns = length docs \<and> sum_list ns = length (filter (\<lambda>n. n = 1) ns)
          \<and> length (setItem_calls w') = length (setItem_calls w) + sum_list ns)
   \<and> (\<forall>ident d w0 n w1. update h this ident d w0 = (Inr n, w1) \<longrightarrow>
          (n = 0 \<and> w1 = w0)
        \<or> (n = 1 \<and> ident \<noteq> []
           \<and> (\<exists>xs i d0.
                 fst (read h this None w0) = Inr (JArr xs)
               \<and> i < length xs \<and> xs ! i = JObj d0
               \<and> map_of d0 ''_id'' = Some (JStr ident)
               \<and> (\<forall>j < i. \<not> has_id ident (xs ! j))
               \<and> localStorage w1 (collection this) =
                   Some (JSON_stringify h
                     (JArr (xs[i := JObj (spread d0 (filter (\<lambda>(k, v). k \<noteq> ''_id'') d))])))
               \<and> setItem_calls w1 =
                   setItem_calls w0 @
                     [(collection this,
                       JSON_stringify h
                         (JArr (xs[i := JObj (spread d0
                                                (filter (\<lambda>(k, v). k \<noteq> ''_id'') d))])))])))
   \<and> updateMany h this [] w = (Inr 0, w)"
proof -
  have "updateMany h this docs w =
     (case update_each h this docs w of
        (Inl e, w') \<Rightarrow> (Inl e, w')
      | (Inr ns, w') \<Rightarrow> (Inr (sum_list ns), w'))"
    by (cases docs) (simp_all add: updateMany_def forEach_update_sum split: prod.splits sum.splits)
  moreover have "\<forall>ns w'. update_each h this docs w = (Inr ns, w') \<longrightarrow>
          length ns = length docs \<and> sum_list ns = length (filter (\<lambda>n. n = 1) ns)
          \<and> length (setItem_calls w') = length (setItem_calls w) + sum_list ns"
  proof (intro allI impI)
    fix ns w' assume run: "update_each h this docs w = (Inr ns, w')"
    from update_each_results [OF run] have len: "length ns = length docs"
      and bits: "\<forall>n \<in> set ns. n = 0 \<or> n = 1"
      by simp_all
    from bits have "sum_list ns = length (filter (\<lambda>n. n = 1) ns)" by (rule sum_list_bits)
    with len update_each_writes [OF run]
    show "length ns = length docs \<and> sum_list ns = length (filter (\<lambda>n. n = 1) ns)
        \<and> length (setItem_calls w') = length (setItem_calls w) + sum_list ns"
      by simp
  qed
  moreover have "updateMany h this [] w = (Inr 0, w)" by (simp add: updateMany_def)
  ultimately show ?thesis using update_result [of h this] by blast
qed

theorem updateMany_sums_updates_witness:
  "fst (updateMany browser notes_repo
          [(''b'', [(''text'', JStr ''bye'')]), (''zz'', []), ([], [])] (holding (JArr [JObj note_a, JObj note_b]))) = Inr 1
   \<and> length (setItem_calls (snd (updateMany browser notes_repo
          [(''b'', [(''text'', JStr ''bye'')]), (''zz'', []), ([], [])] (holding (JArr [JObj note_a, JObj note_b]))))) = 1"
proof -
  let ?docs = "[(''b'', [(''text'', JStr ''bye'')]), (''zz'', []), ([], [])]"
  have e: "fst (update_each browser notes_repo ?docs (holding (JArr [JObj note_a, JObj note_b]))) = Inr [1, 0, 0]"
    by code_simp
  then obtain w' where run: "update_each browser notes_repo ?docs (holding (JArr [JObj note_a, JObj note_b])) = (Inr [1, 0, 0], w')"
    by (cases "update_each browser notes_repo ?docs (holding (JArr [JObj note_a, JObj note_b]))") simp
  have l: "setItem_calls (holding (JArr [JObj note_a, JObj note_b])) = []" by code_simp
  note t = updateMany_sums_updates [of browser notes_repo ?docs "(holding (JArr [JObj note_a, JObj note_b]))"]
  have m: "updateMany browser notes_repo ?docs (holding (JArr [JObj note_a, JObj note_b])) = (Inr 1, w')"
    using t [THEN conjunct1] unfolding run by simp
  have "length (setItem_calls w') = length (setItem_calls (holding (JArr [JObj note_a, JObj note_b]))) + sum_list [1, 0, 0]"
    using t [THEN conjunct2, THEN conjunct1] run by blast
  then show ?thesis by (simp add: m l)
qed

text \<open>
  The claim as stated, that the result is the count of documents updated, fails when an
  identifier occurs in two entries: both calls update the one document with it, and the
  result is 2.
\<close>

theorem updateMany_repeated_id_counterexample:
  "fst (read browser notes_repo None (holding (JArr [JObj note_a, JObj note_b]))) = Inr (JArr [JObj note_a, JObj note_b])
   \<and> fst (updateMany browser notes_repo
          [(''b'', [(''text'', JStr ''x'')]), (''b'', [(''text'', JStr ''y'')])] (holding (JArr [JObj note_a, JObj note_b]))) = Inr 2
   \<and> fst (read browser notes_repo None (snd (updateMany browser notes_repo
          [(''b'', [(''text'', JStr ''x'')]), (''b'', [(''text'', JStr ''y'')])] (holding (JArr [JObj note_a, JObj note_b])))))
       = Inr (JArr [JObj note_a, JObj [(''_id'', JStr ''b''), (''text'', JStr ''y'')]])"
  by code_simp

subsection \<open>Malformed stored text\<close>

text \<open>
  C8, as the code has it.  When the stored text is not empty and is not valid JSON,
  every call that reaches the internal read ends with the syntax error and leaves the
  world as it was: \<open>read\<close>, \<open>create\<close>, \<open>update\<close> and \<open>delete\<close> with a non-empty
  identifier, \<open>deleteMany\<close> with a non-empty list, \<open>updateMany\<close> with an entry whose
  identifier is not empty.  The calls that return before reading return 0: \<open>update\<close>
  and \<open>delete\<close> with the empty identifier, \<open>deleteMany\<close> with the empty list,
  \<open>updateMany\<close> when every identifier is empty.
\<close>

theorem malformed_store_aborts:
  assumes "getItem w (collection this) = Some s" and "s \<noteq> []" and "JSON_parse h s = None"
  shows "read h this q w = (Inl SyntaxError, w)
       \<and> create h this nd w = (Inl SyntaxError, w)
       \<and> (ident \<noteq> [] \<longrightarrow> update h this ident partial w = (Inl SyntaxError, w))
       \<and> (ident \<noteq> [] \<longrightarrow> delete h this ident w = (Inl SyntaxError, w))
       \<and> (idents \<noteq> [] \<longrightarrow> deleteMany h this idents w = (Inl SyntaxError, w))
       \<and> ((\<exists>e \<in> set docs. fst e \<noteq> []) \<longrightarrow> updateMany h this docs w = (Inl SyntaxError, w))
       \<and> update h this [] partial w = (Inr 0, w)
       \<and> delete h this [] w = (Inr 0, w)
       \<and> deleteMany h this [] w = (Inr 0, w)
       \<and> ((\<forall>e \<in> set docs. fst e = []) \<longrightarrow> updateMany h this docs w = (Inr 0, w))"
proof -
  have bad: "JSON_parse h (stored_text this w) = None"
    using assms by (simp add: stored_text_def)
  have rd: "read h this q w = (Inl SyntaxError, w)" for q
    using bad by (rule read_syntax_error)
  have "create h this nd w = (Inl SyntaxError, w)" by (simp add: create_def rd)
  moreover have "ident \<noteq> [] \<longrightarrow> update h this ident partial w = (Inl SyntaxError, w)"
    by (simp add: update_def rd)
  moreover have "ident \<noteq> [] \<longrightarrow> delete h this ident w = (Inl SyntaxError, w)"
    by (simp add: delete_def rd)
  moreover have "idents \<noteq> [] \<longrightarrow> deleteMany h this idents w = (Inl SyntaxError, w)"
    by (simp add: deleteMany_def rd)
  moreover have "(\<exists>e \<in> set docs. fst e \<noteq> []) \<longrightarrow> updateMany h this docs w = (Inl SyntaxError, w)"
    using forEach_update_syntax_error [OF bad] by (auto simp add: updateMany_def)
  moreover have "update h this [] partial w = (Inr 0, w)" by (simp add: update_def)
  moreover have "delete h this [] w = (Inr 0, w)" by (simp add: delete_def)
  moreover have "deleteMany h this [] w = (Inr 0, w)" by (simp add: deleteMany_def)
  moreover have "(\<forall>e \<in> set docs. fst e = []) \<longrightarrow> updateMany h this docs w = (Inr 0, w)"
  proof
    assume all: "\<forall>e \<in> set docs. fst e = []"
    have "forEach_update h this ds c w = (Inr c, w)" if "\<forall>e \<in> set ds. fst e = []" for ds c
      using that by (induction ds arbitrary: c) (auto simp add: update_def)
    with all show "updateMany h this docs w = (Inr 0, w)" by (simp add: updateMany_def)
  qed
  ultimately show ?thesis using rd by blast
qed

theorem malformed_store_aborts_witness:
  "read browser notes_repo None (holding_text ''[{'') = (Inl SyntaxError, holding_text ''[{'')
   \<and> create browser notes_repo (One 0) (holding_text ''[{'')
       = (Inl SyntaxError, holding_text ''[{'')
   \<and> delete browser notes_repo ''b'' (holding_text ''[{'')
       = (Inl SyntaxError, holding_text ''[{'')"
proof -
  have h1: "getItem (holding_text ''[{'') (collection notes_repo) = Some ''[{''" by code_simp
  have h2: "''[{'' \<noteq> []" by simp
  have h3: "JSON_parse browser ''[{'' = None" by code_simp
  show ?thesis
    using malformed_store_aborts [OF h1 h2 h3, of None "One 0" "''b''"] by simp
qed

text \<open>
  The claim as stated, for every operation and every stored value that is not valid
  JSON, fails in two ways.  With malformed text in the store, the calls that return before
  reading return 0.  With the empty text in the store, which is not valid JSON either,
  \<open>read\<close> returns the empty sequence.
\<close>

theorem malformed_store_counterexample:
  "JSON_parse browser ''[{'' = None
   \<and> fst (delete browser notes_repo [] (holding_text ''[{'')) = Inr 0
   \<and> fst (update browser notes_repo [] [(''text'', JStr ''bye'')] (holding_text ''[{'')) = Inr 0
   \<and> fst (updateMany browser notes_repo [] (holding_text ''[{'')) = Inr 0
   \<and> fst (deleteMany browser notes_repo [] (holding_text ''[{'')) = Inr 0
   \<and> JSON_parse browser [] = None
   \<and> getItem (holding_text []) (collection notes_repo) = Some []
   \<and> fst (read browser notes_repo None (holding_text [])) = Inr (JArr [])"
  by code_simp

subsection \<open>\<open>deleteMany\<close> with unknown identifiers\<close>

text \<open>
  C9.  \<open>deleteMany(ids)\<close> with identifiers none of which a stored item has returns 0
  and leaves the world as it was: the stored text is the same and no \<open>setItem\<close> call is
  made.
\<close>

theorem deleteMany_unknown_ids:
  assumes "fst (read h this None w) = Inr (JArr xs)" and "JNull \<notin> set xs"
    and "\<forall>x \<in> set xs. \<forall>i \<in> set idents. \<not> has_id i x"
  shows "deleteMany h this idents w = (Inr 0, w)"
proof (cases "idents = []")
  case True
  then show ?thesis by (simp add: deleteMany_def)
next
  case False
  show ?thesis
    using assms(3) by (simp add: deleteMany_on_array [OF assms(1) False assms(2)])
qed

theorem deleteMany_unknown_ids_witness:
  "deleteMany browser notes_repo [''zz'', ''yy''] (holding (JArr [JObj note_a, JObj note_b])) = (Inr 0, (holding (JArr [JObj note_a, JObj note_b])))"
proof -
  have h1: "fst (read browser notes_repo None (holding (JArr [JObj note_a, JObj note_b]))) = Inr (JArr [JObj note_a, JObj note_b])"
    by code_simp
  have h2: "JNull \<notin> set [JObj note_a, JObj note_b]" by simp
  have h3: "\<forall>x \<in> set [JObj note_a, JObj note_b]. \<forall>i \<in> set [''zz'', ''yy'']. \<not> has_id i x"
    by code_simp
  show ?thesis
    using deleteMany_unknown_ids [OF h1 h2 h3] by simp
qed

subsection \<open>\<open>create\<close> of nothing\<close>



end
